theory Spec2Isabelle
  imports Main "HOL-Library.AList"
begin

section \<open>The path worker and its dispatch layer\<close>

text \<open>
  The development embeds two source files: the web worker \<open>utils/workers/math.worker.ts\<close>
  and the dispatch module that owns the worker (\<open>initWorker\<close>, \<open>generatePathAsync\<close>,
  \<open>generatePerCornerPathAsync\<close>, \<open>generatePathSync\<close>, \<open>generatePerCornerPathSync\<close>,
  \<open>terminateWorker\<close>).

  JavaScript runs each handler to completion on one event loop, so a handler is a function
  from the state to the new state.  The state holds the module variables, the timeouts
  and promises that the runtime keeps for the module, and the trace of the effects
  performed on the outside (console, worker, calls of the callbacks of pending entries).
  What a handler cannot decide itself (whether \<open>new Worker\<close> throws, whether \<open>postMessage\<close>
  throws, the clock) is an explicit input.  The type variable \<open>'n\<close> stands for the values
  that travel in the numeric positions \<open>width\<close>, \<open>height\<close>, \<open>exp\<close>; the dispatch layer only
  passes them on.
\<close>

subsection \<open>Data\<close>

text \<open>\<open>corners\<close> of the worker message: the four per-corner exponents.\<close>

record 'n CornerExponents =
  topLeft :: 'n
  topRight :: 'n
  bottomRight :: 'n
  bottomLeft :: 'n

text \<open>
  A value that a JavaScript \<open>throw\<close> carries: an \<open>Error\<close> object with its message, or
  anything else (the worker tells the two apart with \<open>instanceof Error\<close>).
\<close>

datatype thrown = Error string | NonError

text \<open>
  The module \<open>./math\<close> is imported, not part of the embedded files: its two generators are
  parameters.  A generator returns the path string or throws.
\<close>

record 'n math =
  getSuperellipsePath :: "'n \<Rightarrow> 'n \<Rightarrow> 'n \<Rightarrow> thrown + string"
  getPerCornerSuperellipsePath :: "'n \<Rightarrow> 'n \<Rightarrow> 'n CornerExponents \<Rightarrow> thrown + string"

text \<open>
  \<open>WorkerMessage\<close>, the tagged union of the worker file.  The third constructor is a
  message whose \<open>type\<close> field is some other string: the TypeScript union has no such
  member, the handler's last \<open>else\<close> branch is written for it.  Each constructor carries
  the \<open>id\<close> first.
\<close>

datatype 'n WorkerMessage =
    GENERATE_PATH_SYMMETRIC string 'n 'n 'n
  | GENERATE_PATH_ASYMMETRIC string 'n 'n "'n CornerExponents"
  | Unrecognised string string

fun msg_type :: "'n WorkerMessage \<Rightarrow> string" where
  "msg_type (GENERATE_PATH_SYMMETRIC i w h e) = ''GENERATE_PATH_SYMMETRIC''"
| "msg_type (GENERATE_PATH_ASYMMETRIC i w h c) = ''GENERATE_PATH_ASYMMETRIC''"
| "msg_type (Unrecognised i ty) = ty"

fun msg_id :: "'n WorkerMessage \<Rightarrow> string" where
  "msg_id (GENERATE_PATH_SYMMETRIC i w h e) = i"
| "msg_id (GENERATE_PATH_ASYMMETRIC i w h c) = i"
| "msg_id (Unrecognised i ty) = i"

text \<open>
  What the worker posts back: \<open>{ id, pathData }\<close> or \<open>{ id, error }\<close>.  A field that the
  object does not have reads as \<open>undefined\<close> on the other side, here \<open>None\<close>.
\<close>

record WorkerResponse =
  res_id :: string
  pathData :: "string option"
  error :: "string option"

subsection \<open>The worker: \<open>self.onmessage\<close>\<close>

text \<open>
  The body of the \<open>try\<close> block up to the response: the generator chosen by the message
  type, or \<open>throw new Error(`Unknown message type: ${type}`)\<close>.
\<close>

fun worker_try :: "'n math \<Rightarrow> 'n WorkerMessage \<Rightarrow> thrown + string" where
  "worker_try m (GENERATE_PATH_SYMMETRIC i width height exp) =
     getSuperellipsePath m width height exp"
| "worker_try m (GENERATE_PATH_ASYMMETRIC i width height corners) =
     getPerCornerSuperellipsePath m width height corners"
| "worker_try m (Unrecognised i ty) = Inl (Error (''Unknown message type: '' @ ty))"

text \<open>
  \<open>self.onmessage\<close> returns the list of messages it posts to the main thread.  The
  \<open>catch\<close> block sends \<open>error.message\<close> for an \<open>Error\<close> and \<open>'Unknown error'\<close> otherwise.
\<close>

definition self_onmessage :: "'n math \<Rightarrow> 'n WorkerMessage \<Rightarrow> WorkerResponse list" where
  "self_onmessage m msg =
     (case worker_try m msg of
        Inr path \<Rightarrow> [\<lparr>res_id = msg_id msg, pathData = Some path, error = None\<rparr>]
      | Inl (Error message) \<Rightarrow> [\<lparr>res_id = msg_id msg, pathData = None, error = Some message\<rparr>]
      | Inl NonError \<Rightarrow>
          [\<lparr>res_id = msg_id msg, pathData = None, error = Some ''Unknown error''\<rparr>])"

subsection \<open>The main thread: module state\<close>

text \<open>
  A \<open>PendingRequest\<close> is a pair of closures; both close over the timeout handle of the
  request and over the \<open>resolve\<close>/\<open>reject\<close> functions of its promise.
\<close>

record PendingRequest =
  timeoutId :: nat
  promise :: nat

text \<open>An armed \<open>setTimeout\<close>: its delay and what its callback closes over.\<close>

record timeout =
  delay :: nat
  t_id :: string
  t_promise :: nat

datatype settled = Pending | Fulfilled "string option" | Rejected thrown

text \<open>
  The effects of a handler on the outside, in the order it performs them.  \<open>NewWorker\<close> is
  the evaluation of \<open>new Worker(...)\<close>, whether it returns or throws; \<open>CallResolve\<close> and
  \<open>CallReject\<close> are the calls of an entry's \<open>resolve\<close> and \<open>reject\<close>.
\<close>

datatype 'n effect =
    NewWorker
  | Warn string
  | LogError string
  | PostMessage "'n WorkerMessage"
  | Terminate
  | CallResolve PendingRequest "string option"
  | CallReject PendingRequest thrown

text \<open>
  The module variables \<open>requestIdCounter\<close>, \<open>worker\<close> (\<open>True\<close> when it is not \<open>null\<close>) and
  \<open>pendingRequests\<close> (a JavaScript \<open>Map\<close>: an association list in insertion order); what
  the runtime holds for the module: the armed timeouts and the promises created for
  requests, each with the next free handle; and \<open>trace\<close>, the effects performed so far.
\<close>

record 'n state =
  requestIdCounter :: nat
  worker :: bool
  pendingRequests :: "(string \<times> PendingRequest) list"
  timeouts :: "nat \<Rightarrow> timeout option"
  nextTimeout :: nat
  promises :: "nat \<Rightarrow> settled option"
  nextPromise :: nat
  trace :: "'n effect list"

definition init :: "'n state" where
  "init = \<lparr>requestIdCounter = 0, worker = False, pendingRequests = [],
            timeouts = (\<lambda>t. None), nextTimeout = 0,
            promises = (\<lambda>p. None), nextPromise = 0, trace = []\<rparr>"

definition emit :: "'n effect list \<Rightarrow> 'n state \<Rightarrow> 'n state" where
  "emit fx st = st\<lparr>trace := trace st @ fx\<rparr>"

text \<open>What one call meets outside the module.\<close>

record env =
  canConstruct :: bool
  postThrows :: "thrown option"
  now :: nat

text \<open>What an \<open>async\<close> function hands back: a promise that is already settled, or the
  promise of a registered request.\<close>

datatype outcome = Settled "thrown + string" | Awaits nat

subsection \<open>Promises and entries\<close>

text \<open>The \<open>resolve\<close> and \<open>reject\<close> functions of a promise act once; later calls do nothing.\<close>

definition settle :: "nat \<Rightarrow> settled \<Rightarrow> (nat \<Rightarrow> settled option) \<Rightarrow> (nat \<Rightarrow> settled option)" where
  "settle p v ps = (case ps p of Some Pending \<Rightarrow> ps(p \<mapsto> v) | _ \<Rightarrow> ps)"

text \<open>The entry's \<open>resolve\<close>: \<open>clearTimeout(timeoutId); resolve(pathData)\<close>.\<close>

definition entry_resolve :: "PendingRequest \<Rightarrow> string option \<Rightarrow> 'n state \<Rightarrow> 'n state" where
  "entry_resolve request v st =
     st\<lparr>timeouts := (timeouts st)(timeoutId request := None),
        promises := settle (promise request) (Fulfilled v) (promises st),
        trace := trace st @ [CallResolve request v]\<rparr>"

text \<open>The entry's \<open>reject\<close>: \<open>clearTimeout(timeoutId); reject(error)\<close>.\<close>

definition entry_reject :: "PendingRequest \<Rightarrow> thrown \<Rightarrow> 'n state \<Rightarrow> 'n state" where
  "entry_reject request e st =
     st\<lparr>timeouts := (timeouts st)(timeoutId request := None),
        promises := settle (promise request) (Rejected e) (promises st),
        trace := trace st @ [CallReject request e]\<rparr>"

subsection \<open>\<open>initWorker\<close> and its two handlers\<close>

text \<open>
  \<open>initWorker\<close> returns the truth value of the worker it hands back.  A constructor that
  throws leaves \<open>worker\<close> as it was (\<open>null\<close>), warns, and returns \<open>null\<close>.
\<close>

definition initWorker :: "env \<Rightarrow> 'n state \<Rightarrow> bool \<times> 'n state" where
  "initWorker ev st =
     (if worker st then (True, st)
      else if canConstruct ev then (True, emit [NewWorker] (st\<lparr>worker := True\<rparr>))
      else (False,
            emit [NewWorker,
                  Warn ''Failed to create Web Worker for path generation, falling back to main thread'']
              st))"

text \<open>
  \<open>worker.onmessage\<close>.  \<open>if (error)\<close> is JavaScript truthiness: an absent field and the
  empty string both take the \<open>else\<close> branch.
\<close>

definition worker_onmessage :: "WorkerResponse \<Rightarrow> 'n state \<Rightarrow> 'n state" where
  "worker_onmessage data st =
     (case map_of (pendingRequests st) (res_id data) of
        None \<Rightarrow> emit [Warn (''Received response for unknown request ID: '' @ res_id data)] st
      | Some request \<Rightarrow>
          (let st1 = st\<lparr>pendingRequests := AList.delete (res_id data) (pendingRequests st)\<rparr>
           in case error data of
                Some e \<Rightarrow>
                  if e \<noteq> [] then entry_reject request (Error e) st1
                  else entry_resolve request (pathData data) st1
              | None \<Rightarrow> entry_resolve request (pathData data) st1))"

text \<open>\<open>pendingRequests.forEach\<close> of \<open>worker.onerror\<close>, in the order of the \<open>Map\<close>.\<close>

fun rejectAll :: "thrown \<Rightarrow> (string \<times> PendingRequest) list \<Rightarrow> 'n state \<Rightarrow> 'n state" where
  "rejectAll e [] st = st"
| "rejectAll e ((k, request) # rest) st = rejectAll e rest (entry_reject request e st)"

definition worker_onerror :: "string \<Rightarrow> 'n state \<Rightarrow> 'n state" where
  "worker_onerror message st =
     (let st1 = emit [LogError (''Worker error: '' @ message)] st;
          st2 = rejectAll (Error (''Worker error: '' @ message)) (pendingRequests st1) st1
      in st2\<lparr>pendingRequests := []\<rparr>)"

subsection \<open>The entry points\<close>

text \<open>
  The two synchronous entry points call the generators of \<open>require('./math')\<close>, the
  parameter \<open>m\<close>; whatever the call throws is the \<open>Inl\<close> of the result.
\<close>

definition generatePathSync :: "'n math \<Rightarrow> 'n \<Rightarrow> 'n \<Rightarrow> 'n \<Rightarrow> thrown + string" where
  "generatePathSync m width height exp = getSuperellipsePath m width height exp"

definition generatePerCornerPathSync ::
  "'n math \<Rightarrow> 'n \<Rightarrow> 'n \<Rightarrow> 'n CornerExponents \<Rightarrow> thrown + string" where
  "generatePerCornerPathSync m width height corners =
     getPerCornerSuperellipsePath m width height corners"

text \<open>Decimal digits of a number, as a template literal prints a non-negative integer.\<close>

fun decimal :: "nat \<Rightarrow> string" where
  "decimal n = (if n < 10 then [''0123456789'' ! n]
                else decimal (n div 10) @ [''0123456789'' ! (n mod 10)])"

declare decimal.simps [simp del]

text \<open>
  \<open>`req-${++requestIdCounter}-${Date.now()}`\<close>, given the incremented counter.  Both
  numbers are JavaScript doubles that hold non-negative integers; they are natural
  numbers here, which is what the code computes as long as the counter stays below
  \<open>2\<^sup>5\<^sup>3\<close> (from there on \<open>++\<close> would leave a double unchanged).
\<close>

definition requestId :: "nat \<Rightarrow> nat \<Rightarrow> string" where
  "requestId counter time = ''req-'' @ decimal counter @ ''-'' @ decimal time"

text \<open>
  The part of both entry points after the worker has been obtained: the new id and the
  executor of \<open>new Promise\<close>, which arms the timeout, stores the entry and posts the
  message.  An exception inside an executor does not leave \<open>new Promise\<close>: the constructor
  catches it and rejects the promise with it, so the statements before the throw keep
  their effect and the function returns the promise.
\<close>

definition sendRequest ::
  "env \<Rightarrow> (string \<Rightarrow> 'n WorkerMessage) \<Rightarrow> 'n state \<Rightarrow> outcome \<times> 'n state" where
  "sendRequest ev message st =
     (let counter = requestIdCounter st + 1;
          i = requestId counter (now ev);
          p = nextPromise st;
          t = nextTimeout st;
          st1 = st\<lparr>requestIdCounter := counter,
                   promises := (promises st)(p \<mapsto> Pending), nextPromise := p + 1,
                   timeouts := (timeouts st)(t \<mapsto> \<lparr>delay = 10000, t_id = i, t_promise = p\<rparr>),
                   nextTimeout := t + 1,
                   pendingRequests :=
                     AList.update i \<lparr>timeoutId = t, promise = p\<rparr> (pendingRequests st)\<rparr>
      in case postThrows ev of
           None \<Rightarrow> (Awaits p, emit [PostMessage (message i)] st1)
         | Some x \<Rightarrow> (Awaits p, st1\<lparr>promises := settle p (Rejected x) (promises st1)\<rparr>))"

text \<open>
  \<open>generatePathAsync\<close>.  The synchronous fallback stands inside the \<open>try\<close>, so a generator
  that throws there is called once more by the \<open>catch\<close> block, whose result is the
  function's.
\<close>

definition generatePathAsync ::
  "'n math \<Rightarrow> env \<Rightarrow> 'n \<Rightarrow> 'n \<Rightarrow> 'n \<Rightarrow> 'n state \<Rightarrow> outcome \<times> 'n state" where
  "generatePathAsync m ev width height exp st =
     (let (workerInstance, st1) = initWorker ev st
      in if \<not> workerInstance then
           (case generatePathSync m width height exp of
              Inr path \<Rightarrow> (Settled (Inr path), st1)
            | Inl x \<Rightarrow> (Settled (generatePathSync m width height exp), st1))
         else sendRequest ev (\<lambda>i. GENERATE_PATH_SYMMETRIC i width height exp) st1)"

definition generatePerCornerPathAsync ::
  "'n math \<Rightarrow> env \<Rightarrow> 'n \<Rightarrow> 'n \<Rightarrow> 'n CornerExponents \<Rightarrow> 'n state \<Rightarrow> outcome \<times> 'n state" where
  "generatePerCornerPathAsync m ev width height corners st =
     (let (workerInstance, st1) = initWorker ev st
      in if \<not> workerInstance then
           (case generatePerCornerPathSync m width height corners of
              Inr path \<Rightarrow> (Settled (Inr path), st1)
            | Inl x \<Rightarrow> (Settled (generatePerCornerPathSync m width height corners), st1))
         else sendRequest ev (\<lambda>i. GENERATE_PATH_ASYMMETRIC i width height corners) st1)"

text \<open>
  The callback of the timeout armed by \<open>sendRequest\<close>, run by the runtime when the timer
  \<open>t\<close> is still armed: \<open>pendingRequests.delete(id); reject(new Error(...))\<close>, with the
  promise's own \<open>reject\<close>.  A timer fires once.
\<close>

definition timeout_fires :: "nat \<Rightarrow> 'n state \<Rightarrow> 'n state" where
  "timeout_fires t st =
     (case timeouts st t of
        None \<Rightarrow> st
      | Some tm \<Rightarrow>
          st\<lparr>timeouts := (timeouts st)(t := None),
             pendingRequests := AList.delete (t_id tm) (pendingRequests st),
             promises := settle (t_promise tm) (Rejected (Error ''Path generation timeout''))
                           (promises st)\<rparr>)"

definition terminateWorker :: "'n state \<Rightarrow> 'n state" where
  "terminateWorker st =
     (if worker st then emit [Terminate] (st\<lparr>worker := False, pendingRequests := []\<rparr>)
      else st)"

subsection \<open>The event loop\<close>

text \<open>
  What can happen to the module, one handler at a time: a call of an entry point (with
  what it meets outside), a message or an error event of the worker, a timer, a call of
  \<open>terminateWorker\<close>.  The two handlers of the worker read and write the module variables
  only, so they are defined in every state and for every response; a timer that is not
  armed does nothing.
\<close>

datatype 'n event =
    CallSymmetric env 'n 'n 'n
  | CallAsymmetric env 'n 'n "'n CornerExponents"
  | Message WorkerResponse
  | WorkerError string
  | TimeoutFires nat
  | CallTerminate

fun step :: "'n math \<Rightarrow> 'n event \<Rightarrow> 'n state \<Rightarrow> 'n state" where
  "step m (CallSymmetric ev width height exp) st = snd (generatePathAsync m ev width height exp st)"
| "step m (CallAsymmetric ev width height corners) st =
     snd (generatePerCornerPathAsync m ev width height corners st)"
| "step m (Message data) st = worker_onmessage data st"
| "step m (WorkerError message) st = worker_onerror message st"
| "step m (TimeoutFires t) st = timeout_fires t st"
| "step m CallTerminate st = terminateWorker st"

text \<open>A run: the events in order.\<close>

fun run :: "'n math \<Rightarrow> 'n event list \<Rightarrow> 'n state \<Rightarrow> 'n state" where
  "run m [] st = st"
| "run m (e # es) st = run m es (step m e st)"

subsection \<open>The per-corner generator, from the specification\<close>

text \<open>
  Modelled from the spec: \<open>getPerCornerSuperellipsePath\<close> of the module \<open>utils/math\<close>, which
  is not among the source files.  The specification says of it that it "falls back to the
  symmetric algorithm when all four corner exponents are equal"; what it does otherwise
  (four quadrants stitched at the edge midpoints) is the parameter \<open>stitched\<close>, and the
  symmetric algorithm is the parameter \<open>symmetric\<close>.
\<close>

definition getPerCornerSuperellipsePath_spec ::
  "('n \<Rightarrow> 'n \<Rightarrow> 'n \<Rightarrow> thrown + string) \<Rightarrow> ('n \<Rightarrow> 'n \<Rightarrow> 'n CornerExponents \<Rightarrow> thrown + string)
     \<Rightarrow> 'n \<Rightarrow> 'n \<Rightarrow> 'n CornerExponents \<Rightarrow> thrown + string" where
  "getPerCornerSuperellipsePath_spec symmetric stitched width height corners =
     (if topLeft corners = topRight corners \<and> topRight corners = bottomRight corners
         \<and> bottomRight corners = bottomLeft corners
      then symmetric width height (topLeft corners)
      else stitched width height corners)"

definition math_spec ::
  "('n \<Rightarrow> 'n \<Rightarrow> 'n \<Rightarrow> thrown + string) \<Rightarrow> ('n \<Rightarrow> 'n \<Rightarrow> 'n CornerExponents \<Rightarrow> thrown + string)
     \<Rightarrow> 'n math" where
  "math_spec symmetric stitched =
     \<lparr>getSuperellipsePath = symmetric,
      getPerCornerSuperellipsePath = getPerCornerSuperellipsePath_spec symmetric stitched\<rparr>"

subsection \<open>Traces, removal paths and answers of the worker\<close>

text \<open>The entries whose \<open>resolve\<close> or \<open>reject\<close> a trace calls, in order.\<close>

fun invoked :: "'n effect list \<Rightarrow> PendingRequest list" where
  "invoked [] = []"
| "invoked (CallResolve r v # fx) = r # invoked fx"
| "invoked (CallReject r e # fx) = r # invoked fx"
| "invoked (x # fx) = invoked fx"

text \<open>
  The three resolution paths of an id \<open>k\<close> that the specification names: a response that
  carries \<open>k\<close>, the timeout stored in the entry of \<open>k\<close>, an error event of the worker.
\<close>

fun resolution_path :: "'n state \<Rightarrow> 'n event \<Rightarrow> string \<Rightarrow> bool" where
  "resolution_path st (Message data) k = (res_id data = k)"
| "resolution_path st (TimeoutFires t) k =
     (case map_of (pendingRequests st) k of None \<Rightarrow> False | Some r \<Rightarrow> timeoutId r = t)"
| "resolution_path st (WorkerError message) k = True"
| "resolution_path st CallTerminate k = False"
| "resolution_path st (CallSymmetric ev w h e) k = False"
| "resolution_path st (CallAsymmetric ev w h c) k = False"

text \<open>The same three and \<open>terminateWorker\<close>.\<close>

fun removal_path :: "'n state \<Rightarrow> 'n event \<Rightarrow> string \<Rightarrow> bool" where
  "removal_path st CallTerminate k = True"
| "removal_path st ev k = resolution_path st ev k"

text \<open>
  An event agrees with the worker about a posted message when it is not a response with
  the id of the message, or is a response that \<open>self.onmessage\<close> posts for the message.
\<close>

fun answers :: "'n math \<Rightarrow> 'n WorkerMessage \<Rightarrow> 'n event \<Rightarrow> bool" where
  "answers m msg (Message data) = (res_id data \<noteq> msg_id msg \<or> data \<in> set (self_onmessage m msg))"
| "answers m msg (CallSymmetric ev w h e) = True"
| "answers m msg (CallAsymmetric ev w h c) = True"
| "answers m msg (WorkerError message) = True"
| "answers m msg (TimeoutFires t) = True"
| "answers m msg CallTerminate = True"

subsection \<open>Invariants of the reachable states\<close>

text \<open>
  Used in proofs only.  The counter, the promise handles and the timeout handles advance
  together; an armed timeout \<open>t\<close> belongs to promise \<open>t\<close> and to an id made from the
  counter value \<open>t + 1\<close>; a pending promise has its timeout armed.
\<close>

definition handles_ok :: "'n state \<Rightarrow> bool" where
  "handles_ok st \<longleftrightarrow>
     nextPromise st = requestIdCounter st \<and> nextTimeout st = requestIdCounter st
     \<and> (\<forall>t tm. timeouts st t = Some tm \<longrightarrow>
           t < requestIdCounter st \<and> t_promise tm = t \<and> delay tm = 10000
           \<and> (\<exists>time. t_id tm = requestId (t + 1) time))
     \<and> (\<forall>p. requestIdCounter st \<le> p \<longrightarrow> promises st p = None)
     \<and> (\<forall>p. promises st p = Some Pending \<longrightarrow> timeouts st p \<noteq> None)"

text \<open>Every entry of the table has its own timeout armed, for its key and its promise.\<close>

definition entries_ok :: "'n state \<Rightarrow> bool" where
  "entries_ok st \<longleftrightarrow>
     (\<forall>(k, r) \<in> set (pendingRequests st).
        timeouts st (timeoutId r) = Some \<lparr>delay = 10000, t_id = k, t_promise = promise r\<rparr>)
     \<and> distinct (map snd (pendingRequests st))
     \<and> (pendingRequests st \<noteq> [] \<longrightarrow> worker st)"

text \<open>No entry has been called twice, and the timeout of a called entry is cleared.\<close>

definition invoked_ok :: "'n state \<Rightarrow> bool" where
  "invoked_ok st \<longleftrightarrow>
     distinct (invoked (trace st))
     \<and> (\<forall>r \<in> set (invoked (trace st)).
           timeoutId r < nextTimeout st \<and> timeouts st (timeoutId r) = None)"

definition invariant :: "'n state \<Rightarrow> bool" where
  "invariant st \<longleftrightarrow> handles_ok st \<and> entries_ok st \<and> invoked_ok st"

text \<open>
  What holds of one request, with id \<open>i\<close> and promise \<open>p\<close>, whose generator result is
  \<open>path\<close>, as long as every response with its id comes from the worker: only the key \<open>i\<close>
  leads to \<open>p\<close>, the promise is fulfilled with nothing but \<open>path\<close>, and it is pending
  while the entry is in the table.
\<close>

definition request_inv :: "string \<Rightarrow> nat \<Rightarrow> string \<Rightarrow> 'n state \<Rightarrow> bool" where
  "request_inv i p path st \<longleftrightarrow>
     invariant st \<and> p < nextPromise st
     \<and> (\<exists>c time. i = requestId c time \<and> c \<le> requestIdCounter st)
     \<and> (\<forall>k r. (k, r) \<in> set (pendingRequests st) \<and> promise r = p \<longrightarrow> k = i)
     \<and> (\<forall>v. promises st p = Some (Fulfilled v) \<longrightarrow> v = Some path)
     \<and> (\<forall>r. map_of (pendingRequests st) i = Some r \<longrightarrow>
           promise r = p \<and> promises st p = Some Pending)"

subsection \<open>Examples used by the closed theorems\<close>

text \<open>A generator module over the integers that always returns the same two paths.\<close>

definition math0 :: "int math" where
  "math0 = \<lparr>getSuperellipsePath = (\<lambda>w h e. Inr ''M 0 0 Z''),
            getPerCornerSuperellipsePath = (\<lambda>w h c. Inr ''M 1 1 Z'')\<rparr>"

text \<open>An environment where the worker can be built and posting succeeds, at a given time.\<close>

definition env_ok :: "nat \<Rightarrow> env" where
  "env_ok time = \<lparr>canConstruct = True, postThrows = None, now = time\<rparr>"

text \<open>An environment where \<open>new Worker\<close> throws.\<close>

definition env_noworker :: "nat \<Rightarrow> env" where
  "env_noworker time = \<lparr>canConstruct = False, postThrows = None, now = time\<rparr>"

text \<open>An environment where the worker can be built and \<open>postMessage\<close> throws.\<close>

definition env_postfails :: "nat \<Rightarrow> env" where
  "env_postfails time =
     \<lparr>canConstruct = True, postThrows = Some (Error ''DataCloneError''), now = time\<rparr>"

definition corners0 :: "int CornerExponents" where
  "corners0 = \<lparr>topLeft = 2, topRight = 8, bottomRight = 2, bottomLeft = 8\<rparr>"

text \<open>The module after one symmetric and one per-corner call, both waiting for the worker.\<close>

definition st_two :: "int state" where
  "st_two = run math0 [CallSymmetric (env_ok 5) 100 50 4,
                       CallAsymmetric (env_ok 7) 100 50 corners0] init"


text \<open>The two calls of \<open>st_two\<close>, then the timeout of the first request.\<close>

definition evs3 :: "int event list" where
  "evs3 = [CallSymmetric (env_ok 5) 100 50 4, CallAsymmetric (env_ok 7) 100 50 corners0,
           TimeoutFires 0]"

text \<open>
  One request before the request under study, and what happens after it: the first
  request fails in the worker and its timer, already cleared, fires for nothing.
\<close>

definition evs_before :: "int event list" where
  "evs_before = [CallAsymmetric (env_ok 7) 100 50 corners0]"

definition evs_between :: "int event list" where
  "evs_between = [Message \<lparr>res_id = ''req-1-7'', pathData = None, error = Some ''boom''\<rparr>,
                  TimeoutFires 0]"

section \<open>Basic facts\<close>

subsection \<open>Evaluation of the examples\<close>

lemmas handler_defs = generatePathAsync_def generatePerCornerPathAsync_def initWorker_def
  sendRequest_def emit_def requestId_def decimal.simps Let_def

lemmas example_defs = init_def env_ok_def env_noworker_def env_postfails_def math0_def
  corners0_def generatePathSync_def generatePerCornerPathSync_def

lemma st_two_eval:
  "st_two = \<lparr>requestIdCounter = 2, worker = True,
     pendingRequests = [(''req-1-5'', \<lparr>timeoutId = 0, promise = 0\<rparr>),
                        (''req-2-7'', \<lparr>timeoutId = 1, promise = 1\<rparr>)],
     timeouts = [0 \<mapsto> \<lparr>delay = 10000, t_id = ''req-1-5'', t_promise = 0\<rparr>,
                 1 \<mapsto> \<lparr>delay = 10000, t_id = ''req-2-7'', t_promise = 1\<rparr>],
     nextTimeout = 2,
     promises = [0 \<mapsto> Pending, 1 \<mapsto> Pending],
     nextPromise = 2,
     trace = [NewWorker, PostMessage (GENERATE_PATH_SYMMETRIC ''req-1-5'' 100 50 4),
              PostMessage (GENERATE_PATH_ASYMMETRIC ''req-2-7'' 100 50 corners0)]\<rparr>"
  by (simp add: st_two_def init_def env_ok_def handler_defs)

lemma st_two_facts:
  "pendingRequests st_two = [(''req-1-5'', \<lparr>timeoutId = 0, promise = 0\<rparr>),
                             (''req-2-7'', \<lparr>timeoutId = 1, promise = 1\<rparr>)]"
  "promises st_two 0 = Some Pending" "promises st_two 1 = Some Pending"
  "promises st_two (Suc 0) = Some Pending"
  "timeouts st_two 0 = Some \<lparr>delay = 10000, t_id = ''req-1-5'', t_promise = 0\<rparr>"
  "timeouts st_two 1 = Some \<lparr>delay = 10000, t_id = ''req-2-7'', t_promise = 1\<rparr>"
  "timeouts st_two (Suc 0) = Some \<lparr>delay = 10000, t_id = ''req-2-7'', t_promise = Suc 0\<rparr>"
  "worker st_two"
  by (simp_all add: st_two_eval)

lemma example_facts:
  "\<not> worker (init :: int state)" "requestIdCounter (init :: int state) = 0"
  "nextPromise (init :: int state) = 0" "pendingRequests (init :: int state) = []"
  "\<not> canConstruct (env_noworker t)" "canConstruct (env_ok t)" "postThrows (env_ok t) = None"
  "now (env_ok t) = t" "now (env_noworker t) = t"
  "generatePathSync math0 w h e = Inr ''M 0 0 Z''"
  by (simp_all add: example_defs)

lemma request_ids:
  "requestId 1 5 = ''req-1-5''" "requestId (Suc 0) 5 = ''req-1-5''"
  "requestId 2 5 = ''req-2-5''" "requestId (Suc (Suc 0)) 5 = ''req-2-5''"
  by (simp_all add: requestId_def decimal.simps)

lemma run_evs3: "run math0 evs3 init = timeout_fires 0 st_two"
  by (simp add: evs3_def st_two_def)

lemma st_three_eval:
  "timeout_fires 0 st_two = \<lparr>requestIdCounter = 2, worker = True,
     pendingRequests = [(''req-2-7'', \<lparr>timeoutId = 1, promise = 1\<rparr>)],
     timeouts = [1 \<mapsto> \<lparr>delay = 10000, t_id = ''req-2-7'', t_promise = 1\<rparr>],
     nextTimeout = 2,
     promises = [0 \<mapsto> Rejected (Error ''Path generation timeout''), 1 \<mapsto> Pending],
     nextPromise = 2,
     trace = [NewWorker, PostMessage (GENERATE_PATH_SYMMETRIC ''req-1-5'' 100 50 4),
              PostMessage (GENERATE_PATH_ASYMMETRIC ''req-2-7'' 100 50 corners0)]\<rparr>"
  by (simp add: st_two_eval timeout_fires_def settle_def fun_upd_twist)

lemma evs3_facts:
  "pendingRequests (run math0 evs3 init) = [(''req-2-7'', \<lparr>timeoutId = 1, promise = 1\<rparr>)]"
  "promises (run math0 evs3 init) 0 = Some (Rejected (Error ''Path generation timeout''))"
  "promises (run math0 evs3 init) 1 = Some Pending"
  "timeouts (run math0 evs3 init) 1 = Some \<lparr>delay = 10000, t_id = ''req-2-7'', t_promise = 1\<rparr>"
  by (simp_all add: run_evs3 st_three_eval)

lemma evs_between_facts:
  "worker (run math0 evs_before init)"
  "requestIdCounter (run math0 evs_before init) = 1"
  "nextPromise (run math0 evs_before init) = 1"
  "pendingRequests (run math0 (evs_before @ CallSymmetric (env_ok 5) 100 50 4 # evs_between) init)
     = [(''req-2-5'', \<lparr>timeoutId = 1, promise = 1\<rparr>)]"
  "promises (run math0 (evs_before @ CallSymmetric (env_ok 5) 100 50 4 # evs_between) init) 0
     = Some (Rejected (Error ''boom''))"
  by (simp_all add: evs_before_def evs_between_def example_defs handler_defs
      worker_onmessage_def entry_reject_def settle_def timeout_fires_def)

lemma evs_between_answers:
  "list_all (answers math0 (GENERATE_PATH_SYMMETRIC ''req-2-5'' 100 50 4)) evs_between"
  by (simp add: evs_between_def)

subsection \<open>Lists, association lists and runs\<close>

lemma invoked_append: "invoked (xs @ ys) = invoked xs @ invoked ys"
  by (induction xs rule: invoked.induct) simp_all

lemma invoked_rejects: "invoked (map (\<lambda>(k, r). CallReject r e) xs) = map snd xs"
  by (induction xs) auto

lemma set_update_subset: "set (AList.update k v al) \<subseteq> insert (k, v) (set al)"
  by (induction al) auto

lemma distinct_snd_update:
  "distinct (map snd al) \<Longrightarrow> v \<notin> snd ` set al \<Longrightarrow> distinct (map snd (AList.update k v al))"
proof (induction al)
  case Nil
  then show ?case by simp
next
  case (Cons a al)
  have "snd ` set (AList.update k v al) \<subseteq> insert v (snd ` set al)"
    using set_update_subset [of k v al] by force
  with Cons show ?case by auto
qed

lemma distinct_snd_delete:
  "distinct (map snd al) \<Longrightarrow> distinct (map snd (AList.delete k al))"
  by (simp add: AList.delete_eq distinct_map_filter)

lemma set_delete: "set (AList.delete k al) = {x \<in> set al. fst x \<noteq> k}"
  by (auto simp: AList.delete_eq)

lemma keys_delete: "fst ` set (AList.delete k al) = fst ` set al - {k}"
  by (auto simp: set_delete)

lemma map_of_delete_same: "map_of (AList.delete k al) k = None"
  by (simp add: delete_conv')

lemma in_keys_map_of: "k \<in> fst ` set al \<Longrightarrow> \<exists>r. map_of al k = Some r"
  by (metis map_of_eq_None_iff not_Some_eq)

lemma run_append: "run m (xs @ ys) st = run m ys (run m xs st)"
  by (induction xs arbitrary: st) simp_all

subsection \<open>The handlers, field by field\<close>

lemma settle_apply:
  "settle p v ps q = (if q = p \<and> ps p = Some Pending then Some v else ps q)"
  by (auto simp: settle_def split: option.splits settled.splits)

lemma rejectAll_promises:
  "promises (rejectAll e xs st) p =
     (if p \<in> promise ` snd ` set xs \<and> promises st p = Some Pending then Some (Rejected e)
      else promises st p)"
proof (induction xs arbitrary: st)
  case Nil
  show ?case by simp
next
  case (Cons x xs)
  obtain k r where x: "x = (k, r)" by (cases x)
  have unfold: "rejectAll e (x # xs) st = rejectAll e xs (entry_reject r e st)"
    by (simp add: x)
  have first: "promises (entry_reject r e st) p =
      (if p = promise r \<and> promises st p = Some Pending then Some (Rejected e) else promises st p)"
    by (auto simp add: entry_reject_def settle_apply)
  have mem: "p \<in> promise ` snd ` set (x # xs) \<longleftrightarrow> p = promise r \<or> p \<in> promise ` snd ` set xs"
    by (simp add: x)
  show ?case
    unfolding unfold Cons.IH first mem by auto
qed

lemma rejectAll_timeouts:
  "timeouts (rejectAll e xs st) t =
     (if t \<in> timeoutId ` snd ` set xs then None else timeouts st t)"
proof (induction xs arbitrary: st)
  case Nil
  show ?case by simp
next
  case (Cons x xs)
  obtain k r where x: "x = (k, r)" by (cases x)
  have unfold: "rejectAll e (x # xs) st = rejectAll e xs (entry_reject r e st)"
    by (simp add: x)
  have first: "timeouts (entry_reject r e st) t = (if t = timeoutId r then None else timeouts st t)"
    by (simp add: entry_reject_def)
  have mem: "t \<in> timeoutId ` snd ` set (x # xs) \<longleftrightarrow> t = timeoutId r \<or> t \<in> timeoutId ` snd ` set xs"
    by (simp add: x)
  show ?case
    unfolding unfold Cons.IH first mem by auto
qed

lemma rejectAll_trace:
  "trace (rejectAll e xs st) = trace st @ map (\<lambda>(k, r). CallReject r e) xs"
  by (induction xs arbitrary: st) (auto simp: entry_reject_def)

lemma rejectAll_fields:
  "pendingRequests (rejectAll e xs st) = pendingRequests st
   \<and> worker (rejectAll e xs st) = worker st
   \<and> requestIdCounter (rejectAll e xs st) = requestIdCounter st
   \<and> nextPromise (rejectAll e xs st) = nextPromise st
   \<and> nextTimeout (rejectAll e xs st) = nextTimeout st"
  by (induction xs arbitrary: st) (simp_all add: entry_reject_def split_paired_all)

lemma worker_onerror_trace:
  "trace (worker_onerror message st) =
     trace st @ LogError (''Worker error: '' @ message)
       # map (\<lambda>(k, r). CallReject r (Error (''Worker error: '' @ message))) (pendingRequests st)"
  by (simp add: worker_onerror_def Let_def rejectAll_trace emit_def)

lemma worker_onerror_promises:
  "promises (worker_onerror message st) p =
     (if p \<in> promise ` snd ` set (pendingRequests st) \<and> promises st p = Some Pending
      then Some (Rejected (Error (''Worker error: '' @ message)))
      else promises st p)"
  by (simp add: worker_onerror_def Let_def rejectAll_promises emit_def)

lemma worker_onerror_timeouts:
  "timeouts (worker_onerror message st) t =
     (if t \<in> timeoutId ` snd ` set (pendingRequests st) then None else timeouts st t)"
  by (simp add: worker_onerror_def Let_def rejectAll_timeouts emit_def)

lemma worker_onerror_fields:
  "pendingRequests (worker_onerror message st) = []
   \<and> worker (worker_onerror message st) = worker st
   \<and> requestIdCounter (worker_onerror message st) = requestIdCounter st
   \<and> nextPromise (worker_onerror message st) = nextPromise st
   \<and> nextTimeout (worker_onerror message st) = nextTimeout st"
  by (simp add: worker_onerror_def Let_def rejectAll_fields emit_def)

lemma worker_onerror_rejects:
  assumes "(k, r) \<in> set (pendingRequests st)" and "promises st (promise r) = Some Pending"
  shows "promises (worker_onerror message st) (promise r)
           = Some (Rejected (Error (''Worker error: '' @ message)))"
proof -
  have "promise r \<in> promise ` snd ` set (pendingRequests st)"
    using assms(1) by force
  then show ?thesis
    using assms(2) by (simp add: worker_onerror_promises)
qed

lemma worker_onerror_invoked:
  "invoked (trace (worker_onerror message st)) = invoked (trace st) @ map snd (pendingRequests st)"
  by (simp add: worker_onerror_trace invoked_append invoked_rejects)

lemma onmessage_error:
  "error data = Some e \<Longrightarrow> e \<noteq> [] \<Longrightarrow> map_of (pendingRequests st) (res_id data) = Some r' \<Longrightarrow>
   worker_onmessage data st =
     entry_reject r' (Error e)
       (st\<lparr>pendingRequests := AList.delete (res_id data) (pendingRequests st)\<rparr>)"
    by (simp add: worker_onmessage_def)

lemma onmessage_unknown:
  "map_of (pendingRequests st) (res_id data) = None \<Longrightarrow>
   worker_onmessage data st =
     emit [Warn (''Received response for unknown request ID: '' @ res_id data)] st"
  by (simp add: worker_onmessage_def)

lemma onmessage_found:
  assumes "map_of (pendingRequests st) (res_id data) = Some r"
  shows "pendingRequests (worker_onmessage data st)
           = AList.delete (res_id data) (pendingRequests st)"
    and "invoked (trace (worker_onmessage data st)) = invoked (trace st) @ [r]"
    and "p \<noteq> promise r \<Longrightarrow> promises (worker_onmessage data st) p = promises st p"
    and "t \<noteq> timeoutId r \<Longrightarrow> timeouts (worker_onmessage data st) t = timeouts st t"
  using assms
  by (simp_all add: worker_onmessage_def Let_def entry_reject_def entry_resolve_def
      settle_apply invoked_append split: option.split)

lemma initWorker_fields:
  "fst (initWorker ev st) = (worker st \<or> canConstruct ev)"
  "worker (snd (initWorker ev st)) = (worker st \<or> canConstruct ev)"
  "requestIdCounter (snd (initWorker ev st)) = requestIdCounter st"
  "pendingRequests (snd (initWorker ev st)) = pendingRequests st"
  "timeouts (snd (initWorker ev st)) = timeouts st"
  "nextTimeout (snd (initWorker ev st)) = nextTimeout st"
  "promises (snd (initWorker ev st)) = promises st"
  "nextPromise (snd (initWorker ev st)) = nextPromise st"
  "invoked (trace (snd (initWorker ev st))) = invoked (trace st)"
  by (simp_all add: initWorker_def emit_def invoked_append)

lemma initWorker_available:
  assumes "worker st \<or> canConstruct ev"
  shows "fst (initWorker ev st)"
    and "requestIdCounter (snd (initWorker ev st)) = requestIdCounter st"
    and "pendingRequests (snd (initWorker ev st)) = pendingRequests st"
    and "timeouts (snd (initWorker ev st)) = timeouts st"
    and "nextTimeout (snd (initWorker ev st)) = nextTimeout st"
    and "promises (snd (initWorker ev st)) = promises st"
    and "nextPromise (snd (initWorker ev st)) = nextPromise st"
    and "worker (snd (initWorker ev st))"
    and "trace (snd (initWorker ev st)) = trace st @ (if worker st then [] else [NewWorker])"
  using assms by (auto simp: initWorker_def emit_def)

lemma initWorker_unavailable:
  "\<not> worker st \<Longrightarrow> \<not> canConstruct ev \<Longrightarrow>
   initWorker ev st =
     (False, emit [NewWorker,
        Warn ''Failed to create Web Worker for path generation, falling back to main thread''] st)"
  by (simp add: initWorker_def)

lemma generatePathAsync_available:
  "worker st \<or> canConstruct ev \<Longrightarrow>
   generatePathAsync m ev w h e st =
     sendRequest ev (\<lambda>i. GENERATE_PATH_SYMMETRIC i w h e) (snd (initWorker ev st))"
  by (auto simp: generatePathAsync_def initWorker_def split_beta)

lemma generatePerCornerPathAsync_available:
  "worker st \<or> canConstruct ev \<Longrightarrow>
   generatePerCornerPathAsync m ev w h c st =
     sendRequest ev (\<lambda>i. GENERATE_PATH_ASYMMETRIC i w h c) (snd (initWorker ev st))"
  by (auto simp: generatePerCornerPathAsync_def initWorker_def split_beta)

lemma generatePathAsync_unavailable:
  "\<not> worker st \<Longrightarrow> \<not> canConstruct ev \<Longrightarrow>
   generatePathAsync m ev w h e st =
     (Settled (generatePathSync m w h e),
      emit [NewWorker,
        Warn ''Failed to create Web Worker for path generation, falling back to main thread''] st)"
  by (simp add: generatePathAsync_def initWorker_unavailable split: sum.split)

lemma generatePerCornerPathAsync_unavailable:
  "\<not> worker st \<Longrightarrow> \<not> canConstruct ev \<Longrightarrow>
   generatePerCornerPathAsync m ev w h c st =
     (Settled (generatePerCornerPathSync m w h c),
      emit [NewWorker,
        Warn ''Failed to create Web Worker for path generation, falling back to main thread''] st)"
  by (simp add: generatePerCornerPathAsync_def initWorker_unavailable split: sum.split)

lemma generatePathAsync_snd:
  "snd (generatePathAsync m ev w h e st) =
     (if worker st \<or> canConstruct ev
      then snd (sendRequest ev (\<lambda>i. GENERATE_PATH_SYMMETRIC i w h e) (snd (initWorker ev st)))
      else snd (initWorker ev st))"
  by (auto simp: generatePathAsync_def initWorker_def split_beta split: sum.split)

lemma generatePerCornerPathAsync_snd:
  "snd (generatePerCornerPathAsync m ev w h c st) =
     (if worker st \<or> canConstruct ev
      then snd (sendRequest ev (\<lambda>i. GENERATE_PATH_ASYMMETRIC i w h c) (snd (initWorker ev st)))
      else snd (initWorker ev st))"
  by (auto simp: generatePerCornerPathAsync_def initWorker_def split_beta split: sum.split)

lemma sendRequest_fields:
  "fst (sendRequest ev message st) = Awaits (nextPromise st)"
  "requestIdCounter (snd (sendRequest ev message st)) = requestIdCounter st + 1"
  "worker (snd (sendRequest ev message st)) = worker st"
  "nextPromise (snd (sendRequest ev message st)) = nextPromise st + 1"
  "nextTimeout (snd (sendRequest ev message st)) = nextTimeout st + 1"
  "timeouts (snd (sendRequest ev message st)) =
     (timeouts st)(nextTimeout st \<mapsto>
        \<lparr>delay = 10000, t_id = requestId (requestIdCounter st + 1) (now ev),
         t_promise = nextPromise st\<rparr>)"
  "pendingRequests (snd (sendRequest ev message st)) =
     AList.update (requestId (requestIdCounter st + 1) (now ev))
       \<lparr>timeoutId = nextTimeout st, promise = nextPromise st\<rparr> (pendingRequests st)"
  "promises (snd (sendRequest ev message st)) =
     (promises st)(nextPromise st \<mapsto>
        (case postThrows ev of None \<Rightarrow> Pending | Some x \<Rightarrow> Rejected x))"
  "trace (snd (sendRequest ev message st)) =
     trace st @ (case postThrows ev of
                   None \<Rightarrow> [PostMessage (message (requestId (requestIdCounter st + 1) (now ev)))]
                 | Some x \<Rightarrow> [])"
  by (simp_all add: sendRequest_def Let_def emit_def settle_def split: option.split)

lemma sendRequest_invoked:
  "invoked (trace (snd (sendRequest ev message st))) = invoked (trace st)"
  by (simp add: sendRequest_fields invoked_append split: option.split)

lemma keys_sendRequest:
  "fst ` set (pendingRequests (snd (sendRequest ev message st))) =
     insert (requestId (requestIdCounter st + 1) (now ev)) (fst ` set (pendingRequests st))"
  by (simp add: sendRequest_fields dom_update)

lemma timeout_fires_armed:
  "timeouts st t = Some tm \<Longrightarrow>
   timeout_fires t st =
     st\<lparr>timeouts := (timeouts st)(t := None),
        pendingRequests := AList.delete (t_id tm) (pendingRequests st),
        promises := settle (t_promise tm) (Rejected (Error ''Path generation timeout''))
                      (promises st)\<rparr>"
  by (simp add: timeout_fires_def)

subsection \<open>Request ids are different for different counter values\<close>

lemma digit_inj:
  assumes "a < 10" "b < 10" "''0123456789'' ! a = ''0123456789'' ! b"
  shows "a = b"
proof -
  have d: "distinct ''0123456789''" by simp
  have "a < length ''0123456789''" "b < length ''0123456789''" using assms by simp_all
  with d assms(3) show ?thesis by (simp only: nth_eq_iff_index_eq)
qed

lemma digit_not_dash: "a < 10 \<Longrightarrow> ''0123456789'' ! a \<noteq> CHR ''-''"
proof -
  assume "a < 10"
  then have "''0123456789'' ! a \<in> set ''0123456789''"
    by (intro nth_mem) simp
  then show ?thesis by auto
qed

lemma decimal_nonempty: "decimal n \<noteq> []"
  by (subst decimal.simps) simp

lemma decimal_no_dash: "CHR ''-'' \<notin> set (decimal n)"
proof (induction n rule: decimal.induct)
  case (1 n)
  show ?case
  proof (cases "n < 10")
    case True
    then show ?thesis using digit_not_dash [of n] by (subst decimal.simps) auto
  next
    case False
    then have "CHR ''-'' \<notin> set (decimal (n div 10))" using 1 by simp
    moreover have "''0123456789'' ! (n mod 10) \<noteq> CHR ''-''"
      by (rule digit_not_dash) simp
    ultimately show ?thesis using False by (subst decimal.simps) auto
  qed
qed

lemma decimal_inj: "decimal n = decimal m \<Longrightarrow> n = m"
proof (induction n arbitrary: m rule: decimal.induct)
  case (1 n)
  show ?case
  proof (cases "n < 10")
    case n: True
    show ?thesis
    proof (cases "m < 10")
      case True
      with n 1(2) show ?thesis
        by (simp add: decimal.simps [of n] decimal.simps [of m] digit_inj)
    next
      case False
      with n 1(2) decimal_nonempty [of "m div 10"] show ?thesis
        by (simp add: decimal.simps [of n] decimal.simps [of m])
    qed
  next
    case n: False
    show ?thesis
    proof (cases "m < 10")
      case True
      with n 1(2) decimal_nonempty [of "n div 10"] show ?thesis
        by (simp add: decimal.simps [of n] decimal.simps [of m])
    next
      case False
      with n 1(2) have eq: "decimal (n div 10) = decimal (m div 10)"
        and d: "''0123456789'' ! (n mod 10) = ''0123456789'' ! (m mod 10)"
        by (simp_all add: decimal.simps [of n] decimal.simps [of m])
      from 1(1) [OF n eq] have "n div 10 = m div 10" .
      moreover from d have "n mod 10 = m mod 10"
        by (intro digit_inj) simp_all
      ultimately show ?thesis
        by (metis div_mult_mod_eq)
    qed
  qed
qed

lemma requestId_inj:
  assumes "requestId c t = requestId c' t'"
  shows "c = c'"
proof -
  from assms have "decimal c @ CHR ''-'' # decimal t = decimal c' @ CHR ''-'' # decimal t'"
    by (simp add: requestId_def)
  then have "decimal c = decimal c'"
    using decimal_no_dash [of c] decimal_no_dash [of t]
    by (simp add: append_Cons_eq_iff)
  then show ?thesis by (rule decimal_inj)
qed

subsection \<open>The invariants hold in every reachable state\<close>

lemma handles_okI:
  assumes "nextPromise st = requestIdCounter st" and "nextTimeout st = requestIdCounter st"
    and "\<And>t tm. timeouts st t = Some tm \<Longrightarrow>
           t < requestIdCounter st \<and> t_promise tm = t \<and> delay tm = 10000
           \<and> (\<exists>time. t_id tm = requestId (t + 1) time)"
    and "\<And>p. requestIdCounter st \<le> p \<Longrightarrow> promises st p = None"
    and "\<And>p. promises st p = Some Pending \<Longrightarrow> timeouts st p \<noteq> None"
  shows "handles_ok st"
  unfolding handles_ok_def using assms by blast

lemma handles_okD:
  assumes "handles_ok st"
  shows "nextPromise st = requestIdCounter st" and "nextTimeout st = requestIdCounter st"
    and "\<And>t tm. timeouts st t = Some tm \<Longrightarrow>
           t < requestIdCounter st \<and> t_promise tm = t \<and> delay tm = 10000
           \<and> (\<exists>time. t_id tm = requestId (t + 1) time)"
    and "\<And>p. requestIdCounter st \<le> p \<Longrightarrow> promises st p = None"
    and "\<And>p. promises st p = Some Pending \<Longrightarrow> timeouts st p \<noteq> None"
  using assms unfolding handles_ok_def by blast+

lemma entries_okI:
  assumes "\<And>k r. (k, r) \<in> set (pendingRequests st) \<Longrightarrow>
        timeouts st (timeoutId r) = Some \<lparr>delay = 10000, t_id = k, t_promise = promise r\<rparr>"
    and "distinct (map snd (pendingRequests st))"
    and "pendingRequests st \<noteq> [] \<Longrightarrow> worker st"
  shows "entries_ok st"
  unfolding entries_ok_def using assms by blast

lemma entries_okD:
  assumes "entries_ok st"
  shows "\<And>k r. (k, r) \<in> set (pendingRequests st) \<Longrightarrow>
        timeouts st (timeoutId r) = Some \<lparr>delay = 10000, t_id = k, t_promise = promise r\<rparr>"
    and "distinct (map snd (pendingRequests st))"
    and "pendingRequests st \<noteq> [] \<Longrightarrow> worker st"
  using assms unfolding entries_ok_def by blast+

lemma invoked_okI:
  assumes "distinct (invoked (trace st))"
    and "\<And>r. r \<in> set (invoked (trace st)) \<Longrightarrow>
           timeoutId r < nextTimeout st \<and> timeouts st (timeoutId r) = None"
  shows "invoked_ok st"
  unfolding invoked_ok_def using assms by blast

lemma invoked_okD:
  assumes "invoked_ok st"
  shows "distinct (invoked (trace st))"
    and "\<And>r. r \<in> set (invoked (trace st)) \<Longrightarrow>
           timeoutId r < nextTimeout st \<and> timeouts st (timeoutId r) = None"
  using assms unfolding invoked_ok_def by blast+

lemma inv_init: "invariant init"
  by (simp add: invariant_def handles_ok_def entries_ok_def invoked_ok_def init_def)

lemma inv_initWorker:
  assumes "invariant st"
  shows "invariant (snd (initWorker ev st))"
proof -
  from assms have h: "handles_ok st" and e: "entries_ok st" and i: "invoked_ok st"
    by (simp_all add: invariant_def)
  have "handles_ok (snd (initWorker ev st))"
    using h unfolding handles_ok_def initWorker_fields .
  moreover have "entries_ok (snd (initWorker ev st))"
    using e unfolding entries_ok_def initWorker_fields by blast
  moreover have "invoked_ok (snd (initWorker ev st))"
    using i unfolding invoked_ok_def initWorker_fields .
  ultimately show ?thesis by (simp add: invariant_def)
qed

lemma handles_ok_sendRequest:
  assumes h: "handles_ok st"
  shows "handles_ok (snd (sendRequest ev message st))"
proof (rule handles_okI)
  let ?st' = "snd (sendRequest ev message st)"
  note hd = handles_okD [OF h]
  show "nextPromise ?st' = requestIdCounter ?st'"
    by (simp add: sendRequest_fields hd(1))
  show "nextTimeout ?st' = requestIdCounter ?st'"
    by (simp add: sendRequest_fields hd(2))
  show "t < requestIdCounter ?st' \<and> t_promise tm = t \<and> delay tm = 10000
           \<and> (\<exists>time. t_id tm = requestId (t + 1) time)"
    if a: "timeouts ?st' t = Some tm" for t tm
  proof (cases "t = requestIdCounter st")
    case True
    with a have "tm = \<lparr>delay = 10000, t_id = requestId (requestIdCounter st + 1) (now ev),
                        t_promise = requestIdCounter st\<rparr>"
      by (simp add: sendRequest_fields hd(1) hd(2))
    with True show ?thesis by (auto simp: sendRequest_fields)
  next
    case False
    with a have "timeouts st t = Some tm"
      by (simp add: sendRequest_fields hd(2))
    from hd(3) [OF this] show ?thesis by (simp add: sendRequest_fields)
  qed
  show "promises ?st' p = None" if "requestIdCounter ?st' \<le> p" for p
    using that hd(4) [of p] by (simp add: sendRequest_fields hd(1))
  show "timeouts ?st' p \<noteq> None" if "promises ?st' p = Some Pending" for p
    using that hd(5) [of p]
    by (cases "p = requestIdCounter st") (simp_all add: sendRequest_fields hd(1) hd(2))
qed

lemma entry_timeout_lt:
  assumes "handles_ok st" and "entries_ok st" and "(k, r) \<in> set (pendingRequests st)"
  shows "timeoutId r < requestIdCounter st" and "promise r = timeoutId r"
    and "\<exists>time. k = requestId (timeoutId r + 1) time"
  using handles_okD(3) [OF assms(1) entries_okD(1) [OF assms(2) assms(3)]] by auto

lemma entries_ok_sendRequest:
  assumes h: "handles_ok st" and e: "entries_ok st" and w: "worker st"
  shows "entries_ok (snd (sendRequest ev message st))"
proof (rule entries_okI)
  let ?i = "requestId (requestIdCounter st + 1) (now ev)"
  let ?r = "\<lparr>timeoutId = nextTimeout st, promise = nextPromise st\<rparr>"
  let ?st' = "snd (sendRequest ev message st)"
  note hd = handles_okD [OF h]
  have old: "timeoutId r < nextTimeout st" if "(k, r) \<in> set (pendingRequests st)" for k r
    using entry_timeout_lt(1) [OF h e that] by (simp add: hd(2))
  show "timeouts ?st' (timeoutId r) = Some \<lparr>delay = 10000, t_id = k, t_promise = promise r\<rparr>"
    if "(k, r) \<in> set (pendingRequests ?st')" for k r
  proof -
    from that have "(k, r) = (?i, ?r) \<or> (k, r) \<in> set (pendingRequests st)"
      using set_update_subset [of ?i ?r "pendingRequests st"] by (auto simp: sendRequest_fields)
    then show ?thesis
    proof
      assume "(k, r) = (?i, ?r)"
      then show ?thesis by (simp add: sendRequest_fields)
    next
      assume m: "(k, r) \<in> set (pendingRequests st)"
      have "timeouts st (timeoutId r) = Some \<lparr>delay = 10000, t_id = k, t_promise = promise r\<rparr>"
        by (rule entries_okD(1) [OF e m])
      moreover have "timeoutId r \<noteq> nextTimeout st" using old [OF m] by simp
      ultimately show ?thesis by (simp add: sendRequest_fields)
    qed
  qed
  have fresh: "?r \<notin> snd ` set (pendingRequests st)"
    using old by force
  show "distinct (map snd (pendingRequests ?st'))"
    using entries_okD(2) [OF e] fresh by (simp add: sendRequest_fields distinct_snd_update)
  show "worker ?st'" by (simp add: sendRequest_fields w)
qed

lemma invoked_ok_sendRequest:
  assumes i: "invoked_ok st"
  shows "invoked_ok (snd (sendRequest ev message st))"
proof (rule invoked_okI)
  let ?st' = "snd (sendRequest ev message st)"
  show "distinct (invoked (trace ?st'))"
    using invoked_okD(1) [OF i] by (simp add: sendRequest_invoked)
  show "timeoutId r < nextTimeout ?st' \<and> timeouts ?st' (timeoutId r) = None"
    if "r \<in> set (invoked (trace ?st'))" for r
  proof -
    from that have "r \<in> set (invoked (trace st))" by (simp add: sendRequest_invoked)
    from invoked_okD(2) [OF i this] show ?thesis by (simp add: sendRequest_fields)
  qed
qed

lemma inv_sendRequest: "invariant st \<Longrightarrow> worker st \<Longrightarrow> invariant (snd (sendRequest ev message st))"
  by (simp add: invariant_def handles_ok_sendRequest entries_ok_sendRequest invoked_ok_sendRequest)

lemma entries_distinct_timeouts:
  assumes e: "entries_ok st" and a: "(k, r) \<in> set (pendingRequests st)"
    and b: "(k', r') \<in> set (pendingRequests st)" and t: "timeoutId r' = timeoutId r"
  shows "k' = k"
  using entries_okD(1) [OF e a] entries_okD(1) [OF e b] t by simp

lemma inv_callback:
  assumes inv: "invariant st" and found: "map_of (pendingRequests st) k = Some r"
    and c: "requestIdCounter st' = requestIdCounter st" "nextPromise st' = nextPromise st"
      "nextTimeout st' = nextTimeout st" "worker st' = worker st"
    and pend: "pendingRequests st' = AList.delete k (pendingRequests st)"
    and tmo: "timeouts st' = (timeouts st)(timeoutId r := None)"
    and prm: "promises st' = settle (promise r) v (promises st)" and v: "v \<noteq> Pending"
    and tr: "invoked (trace st') = invoked (trace st) @ [r]"
  shows "invariant st'"
proof -
  from inv have h: "handles_ok st" and e: "entries_ok st" and i: "invoked_ok st"
    by (simp_all add: invariant_def)
  note hd = handles_okD [OF h]
  have mem: "(k, r) \<in> set (pendingRequests st)" by (rule map_of_SomeD [OF found])
  note r = entry_timeout_lt [OF h e mem]
  have armed: "timeouts st (timeoutId r) = Some \<lparr>delay = 10000, t_id = k, t_promise = promise r\<rparr>"
    by (rule entries_okD(1) [OF e mem])
  have "handles_ok st'"
  proof (rule handles_okI)
    show "nextPromise st' = requestIdCounter st'" by (simp add: c hd(1))
    show "nextTimeout st' = requestIdCounter st'" by (simp add: c hd(2))
    show "t < requestIdCounter st' \<and> t_promise tm = t \<and> delay tm = 10000
           \<and> (\<exists>time. t_id tm = requestId (t + 1) time)"
      if a: "timeouts st' t = Some tm" for t tm
    proof -
      from a have "timeouts st t = Some tm" by (simp add: tmo split: if_splits)
      from hd(3) [OF this] show ?thesis by (simp add: c)
    qed
    show "promises st' p = None" if "requestIdCounter st' \<le> p" for p
      using that hd(4) [of p] by (auto simp add: prm settle_apply c)
    show "timeouts st' p \<noteq> None" if a: "promises st' p = Some Pending" for p
    proof -
      from a v have "p \<noteq> promise r" and "promises st p = Some Pending"
        by (auto simp: prm settle_apply split: if_splits)
      with hd(5) [of p] show ?thesis by (simp add: tmo r(2))
    qed
  qed
  moreover have "entries_ok st'"
  proof (rule entries_okI)
    show "timeouts st' (timeoutId r') = Some \<lparr>delay = 10000, t_id = k', t_promise = promise r'\<rparr>"
      if a: "(k', r') \<in> set (pendingRequests st')" for k' r'
    proof -
      from a have m: "(k', r') \<in> set (pendingRequests st)" and ne: "k' \<noteq> k"
        by (auto simp: pend set_delete)
      have "timeoutId r' \<noteq> timeoutId r"
        using entries_distinct_timeouts [OF e mem m] ne by blast
      then show ?thesis using entries_okD(1) [OF e m] by (simp add: tmo)
    qed
    show "distinct (map snd (pendingRequests st'))"
      using entries_okD(2) [OF e] by (simp add: pend distinct_snd_delete)
    have "pendingRequests st \<noteq> []" using mem by auto
    then show "worker st'" using entries_okD(3) [OF e] by (simp add: c)
  qed
  moreover have "invoked_ok st'"
  proof (rule invoked_okI)
    have "r \<notin> set (invoked (trace st))"
      using invoked_okD(2) [OF i, of r] armed by auto
    then show "distinct (invoked (trace st'))"
      using invoked_okD(1) [OF i] by (simp add: tr)
    show "timeoutId r' < nextTimeout st' \<and> timeouts st' (timeoutId r') = None"
      if a: "r' \<in> set (invoked (trace st'))" for r'
    proof (cases "r' = r")
      case True
      then show ?thesis using r(1) by (simp add: tmo c hd(2))
    next
      case False
      with a have "r' \<in> set (invoked (trace st))" by (simp add: tr)
      from invoked_okD(2) [OF i this] show ?thesis by (simp add: tmo c)
    qed
  qed
  ultimately show ?thesis by (simp add: invariant_def)
qed

lemma inv_emit:
  assumes "invariant st" and "invoked fx = []"
  shows "invariant (emit fx st)"
proof -
  from assms(1) have h: "handles_ok st" and e: "entries_ok st" and i: "invoked_ok st"
    by (simp_all add: invariant_def)
  have "handles_ok (emit fx st)" using h by (simp add: handles_ok_def emit_def)
  moreover have "entries_ok (emit fx st)" using e by (simp add: entries_ok_def emit_def)
  moreover have "invoked_ok (emit fx st)"
    using i assms(2) by (simp add: invoked_ok_def emit_def invoked_append)
  ultimately show ?thesis by (simp add: invariant_def)
qed

lemma inv_worker_onmessage:
  assumes "invariant st"
  shows "invariant (worker_onmessage data st)"
proof (cases "map_of (pendingRequests st) (res_id data)")
  case None
  then show ?thesis
    using inv_emit [OF assms] by (simp add: worker_onmessage_def)
next
  case (Some r)
  let ?st1 = "st\<lparr>pendingRequests := AList.delete (res_id data) (pendingRequests st)\<rparr>"
  have rej: "invariant (entry_reject r x ?st1)" for x
    by (rule inv_callback [OF assms Some, where v = "Rejected x"])
       (simp_all add: entry_reject_def invoked_append)
  have res: "invariant (entry_resolve r x ?st1)" for x
    by (rule inv_callback [OF assms Some, where v = "Fulfilled x"])
       (simp_all add: entry_resolve_def invoked_append)
  show ?thesis
    using Some rej res by (simp add: worker_onmessage_def Let_def split: option.split)
qed

lemma inv_timeout_fires:
  assumes inv: "invariant st"
  shows "invariant (timeout_fires t st)"
proof (cases "timeouts st t")
  case None
  then show ?thesis using inv by (simp add: timeout_fires_def)
next
  case (Some tm)
  let ?st' = "timeout_fires t st"
  note eq = timeout_fires_armed [OF Some]
  from inv have h: "handles_ok st" and e: "entries_ok st" and i: "invoked_ok st"
    by (simp_all add: invariant_def)
  note hd = handles_okD [OF h]
  have tp: "t_promise tm = t" using hd(3) [OF Some] by simp
  have "handles_ok ?st'"
  proof (rule handles_okI)
    show "nextPromise ?st' = requestIdCounter ?st'" by (simp add: eq hd(1))
    show "nextTimeout ?st' = requestIdCounter ?st'" by (simp add: eq hd(2))
    show "u < requestIdCounter ?st' \<and> t_promise um = u \<and> delay um = 10000
           \<and> (\<exists>time. t_id um = requestId (u + 1) time)"
      if a: "timeouts ?st' u = Some um" for u um
    proof -
      from a have "timeouts st u = Some um" by (simp add: eq split: if_splits)
      from hd(3) [OF this] show ?thesis by (simp add: eq)
    qed
    show "promises ?st' p = None" if "requestIdCounter ?st' \<le> p" for p
      using that hd(4) [of p] by (auto simp add: eq settle_apply)
    show "timeouts ?st' p \<noteq> None" if a: "promises ?st' p = Some Pending" for p
    proof -
      from a have "p \<noteq> t" and "promises st p = Some Pending"
        by (auto simp: eq tp settle_apply split: if_splits)
      with hd(5) [of p] show ?thesis by (simp add: eq)
    qed
  qed
  moreover have "entries_ok ?st'"
  proof (rule entries_okI)
    show "timeouts ?st' (timeoutId r') = Some \<lparr>delay = 10000, t_id = k', t_promise = promise r'\<rparr>"
      if a: "(k', r') \<in> set (pendingRequests ?st')" for k' r'
    proof -
      from a have m: "(k', r') \<in> set (pendingRequests st)" and ne: "k' \<noteq> t_id tm"
        by (auto simp: eq set_delete)
      have "timeoutId r' \<noteq> t"
        using entries_okD(1) [OF e m] Some ne by auto
      then show ?thesis using entries_okD(1) [OF e m] by (simp add: eq)
    qed
    show "distinct (map snd (pendingRequests ?st'))"
      using entries_okD(2) [OF e] by (simp add: eq distinct_snd_delete)
    assume "pendingRequests ?st' \<noteq> []"
    then have "pendingRequests st \<noteq> []" by (auto simp: eq)
    then show "worker ?st'" using entries_okD(3) [OF e] by (simp add: eq)
  qed
  moreover have "invoked_ok ?st'"
  proof (rule invoked_okI)
    show "distinct (invoked (trace ?st'))"
      using invoked_okD(1) [OF i] by (simp add: eq)
    show "timeoutId r' < nextTimeout ?st' \<and> timeouts ?st' (timeoutId r') = None"
      if a: "r' \<in> set (invoked (trace ?st'))" for r'
    proof -
      from a have "r' \<in> set (invoked (trace st))" by (simp add: eq)
      from invoked_okD(2) [OF i this] show ?thesis by (simp add: eq)
    qed
  qed
  ultimately show ?thesis by (simp add: invariant_def)
qed

lemma inv_worker_onerror:
  assumes inv: "invariant st"
  shows "invariant (worker_onerror message st)"
proof -
  let ?st' = "worker_onerror message st"
  from inv have h: "handles_ok st" and e: "entries_ok st" and i: "invoked_ok st"
    by (simp_all add: invariant_def)
  note hd = handles_okD [OF h]
  note f = worker_onerror_fields [of message st]
  have same: "promise ` snd ` set (pendingRequests st) = timeoutId ` snd ` set (pendingRequests st)"
    using entry_timeout_lt(2) [OF h e] by force
  have "handles_ok ?st'"
  proof (rule handles_okI)
    show "nextPromise ?st' = requestIdCounter ?st'" by (simp add: f hd(1))
    show "nextTimeout ?st' = requestIdCounter ?st'" by (simp add: f hd(2))
    show "u < requestIdCounter ?st' \<and> t_promise um = u \<and> delay um = 10000
           \<and> (\<exists>time. t_id um = requestId (u + 1) time)"
      if a: "timeouts ?st' u = Some um" for u um
    proof -
      from a have "timeouts st u = Some um"
        by (simp add: worker_onerror_timeouts split: if_splits)
      from hd(3) [OF this] show ?thesis by (simp add: f)
    qed
    show "promises ?st' p = None" if "requestIdCounter ?st' \<le> p" for p
      using that hd(4) [of p] by (simp add: worker_onerror_promises f)
    show "timeouts ?st' p \<noteq> None" if a: "promises ?st' p = Some Pending" for p
    proof -
      from a have "p \<notin> promise ` snd ` set (pendingRequests st)" and "promises st p = Some Pending"
        by (auto simp: worker_onerror_promises split: if_splits)
      with hd(5) [of p] show ?thesis by (simp add: worker_onerror_timeouts same)
    qed
  qed
  moreover have "entries_ok ?st'"
    by (rule entries_okI) (simp_all add: f)
  moreover have "invoked_ok ?st'"
  proof (rule invoked_okI)
    have "r \<notin> set (invoked (trace st))" if "r \<in> snd ` set (pendingRequests st)" for r
    proof -
      from that obtain k where "(k, r) \<in> set (pendingRequests st)" by force
      from entries_okD(1) [OF e this] invoked_okD(2) [OF i, of r] show ?thesis by auto
    qed
    then show "distinct (invoked (trace ?st'))"
      using invoked_okD(1) [OF i] entries_okD(2) [OF e]
      by (auto simp: worker_onerror_invoked)
    show "timeoutId r' < nextTimeout ?st' \<and> timeouts ?st' (timeoutId r') = None"
      if a: "r' \<in> set (invoked (trace ?st'))" for r'
    proof -
      from a have "r' \<in> set (invoked (trace st)) \<or> r' \<in> snd ` set (pendingRequests st)"
        by (auto simp: worker_onerror_invoked)
      then show ?thesis
      proof
        assume "r' \<in> set (invoked (trace st))"
        from invoked_okD(2) [OF i this] show ?thesis
          by (simp add: worker_onerror_timeouts f)
      next
        assume b: "r' \<in> snd ` set (pendingRequests st)"
        then obtain k where "(k, r') \<in> set (pendingRequests st)" by force
        from entry_timeout_lt(1) [OF h e this] b show ?thesis
          by (simp add: worker_onerror_timeouts f hd(2))
      qed
    qed
  qed
  ultimately show ?thesis by (simp add: invariant_def)
qed

lemma inv_terminateWorker:
  assumes inv: "invariant st"
  shows "invariant (terminateWorker st)"
proof (cases "worker st")
  case False
  then show ?thesis using inv by (simp add: terminateWorker_def)
next
  case True
  from inv have h: "handles_ok st" and i: "invoked_ok st"
    by (simp_all add: invariant_def)
  have "handles_ok (terminateWorker st)"
    using h True by (simp add: handles_ok_def terminateWorker_def emit_def)
  moreover have "entries_ok (terminateWorker st)"
    using True by (simp add: entries_ok_def terminateWorker_def emit_def)
  moreover have "invoked_ok (terminateWorker st)"
    using i True by (simp add: invoked_ok_def terminateWorker_def emit_def invoked_append)
  ultimately show ?thesis by (simp add: invariant_def)
qed

lemma inv_step: "invariant st \<Longrightarrow> invariant (step m ev st)"
proof (cases ev)
  case (CallSymmetric en w h e)
  assume "invariant st"
  then show ?thesis
    using inv_initWorker [of st en] inv_sendRequest [of "snd (initWorker en st)" en]
    by (simp add: CallSymmetric generatePathAsync_snd initWorker_fields)
next
  case (CallAsymmetric en w h c)
  assume "invariant st"
  then show ?thesis
    using inv_initWorker [of st en] inv_sendRequest [of "snd (initWorker en st)" en]
    by (simp add: CallAsymmetric generatePerCornerPathAsync_snd initWorker_fields)
qed (simp_all add: inv_worker_onmessage inv_worker_onerror inv_timeout_fires inv_terminateWorker)

lemma inv_run: "invariant st \<Longrightarrow> invariant (run m evs st)"
  by (induction evs arbitrary: st) (simp_all add: inv_step)

lemma inv_reachable: "invariant (run m evs init)"
  by (rule inv_run [OF inv_init])

subsection \<open>The life of an entry and of a promise\<close>

lemma removed_iff_removal_path:
  assumes inv: "invariant st" and k: "k \<in> fst ` set (pendingRequests st)"
  shows "k \<notin> fst ` set (pendingRequests (step m ev st)) \<longleftrightarrow> removal_path st ev k"
proof -
  from inv have h: "handles_ok st" and e: "entries_ok st"
    by (simp_all add: invariant_def)
  from in_keys_map_of [OF k] obtain r where found: "map_of (pendingRequests st) k = Some r" ..
  then have mem: "(k, r) \<in> set (pendingRequests st)" by (rule map_of_SomeD)
  note armed = entries_okD(1) [OF e mem]
  show ?thesis
  proof (cases ev)
    case (CallSymmetric en w hh ee)
    then show ?thesis using k
      by (simp add: generatePathAsync_snd keys_sendRequest initWorker_fields)
  next
    case (CallAsymmetric en w hh c)
    then show ?thesis using k
      by (simp add: generatePerCornerPathAsync_snd keys_sendRequest initWorker_fields)
  next
    case (Message data)
    show ?thesis
    proof (cases "map_of (pendingRequests st) (res_id data)")
      case None
      with found have "res_id data \<noteq> k" by auto
      with None k show ?thesis by (simp add: Message onmessage_unknown emit_def)
    next
      case (Some r')
      then have "pendingRequests (worker_onmessage data st)
                   = AList.delete (res_id data) (pendingRequests st)"
        by (simp add: worker_onmessage_def Let_def entry_reject_def entry_resolve_def
            split: option.split)
      with k show ?thesis by (auto simp: Message keys_delete)
    qed
  next
    case (WorkerError message)
    then show ?thesis by (simp add: worker_onerror_fields)
  next
    case (TimeoutFires t)
    show ?thesis
    proof (cases "timeouts st t")
      case None
      with armed have "timeoutId r \<noteq> t" by auto
      with None k found show ?thesis by (simp add: TimeoutFires timeout_fires_def)
    next
      case (Some tm)
      have "t_id tm = k \<longleftrightarrow> timeoutId r = t"
      proof
        assume "t_id tm = k"
        moreover from handles_okD(3) [OF h Some] obtain time
          where "t_id tm = requestId (t + 1) time" by blast
        moreover from handles_okD(3) [OF h armed] obtain time'
          where "k = requestId (timeoutId r + 1) time'" by auto
        ultimately have "requestId (t + 1) time = requestId (timeoutId r + 1) time'" by simp
        from requestId_inj [OF this] show "timeoutId r = t" by simp
      next
        assume "timeoutId r = t"
        with armed Some show "t_id tm = k" by auto
      qed
      with k found show ?thesis
        by (auto simp: TimeoutFires timeout_fires_armed [OF Some] keys_delete)
    qed
  next
    case CallTerminate
    from k have "pendingRequests st \<noteq> []" by auto
    from entries_okD(3) [OF e this] show ?thesis
      by (simp add: CallTerminate terminateWorker_def emit_def)
  qed
qed

lemma settled_step:
  assumes inv: "invariant st" and s: "promises st p = Some s" and np: "s \<noteq> Pending"
  shows "promises (step m ev st) p = Some s"
proof -
  from inv have h: "handles_ok st" by (simp add: invariant_def)
  have lt: "p \<noteq> nextPromise st"
    using handles_okD(4) [OF h, of p] handles_okD(1) [OF h] s by auto
  have send: "promises (snd (sendRequest en msg (snd (initWorker en st)))) p = Some s" for en msg
    using lt s by (simp add: sendRequest_fields initWorker_fields)
  show ?thesis
  proof (cases ev)
    case (CallSymmetric en w hh ee)
    then show ?thesis using send s
      by (simp add: generatePathAsync_snd initWorker_fields)
  next
    case (CallAsymmetric en w hh c)
    then show ?thesis using send s
      by (simp add: generatePerCornerPathAsync_snd initWorker_fields)
  next
    case (Message data)
    then show ?thesis using s np
      by (auto simp: worker_onmessage_def Let_def entry_reject_def entry_resolve_def emit_def
          settle_apply split: option.split)
  next
    case (WorkerError message)
    then show ?thesis using s np by (simp add: worker_onerror_promises)
  next
    case (TimeoutFires t)
    then show ?thesis using s np
      by (auto simp: timeout_fires_def settle_apply split: option.split)
  next
    case CallTerminate
    then show ?thesis using s by (simp add: terminateWorker_def emit_def)
  qed
qed

lemma settled_run:
  assumes "invariant st" and "promises st p = Some s" and "s \<noteq> Pending"
  shows "promises (run m evs st) p = Some s"
  using assms
proof (induction evs arbitrary: st)
  case Nil
  then show ?case by simp
next
  case (Cons ev evs)
  have "invariant (step m ev st)" by (rule inv_step [OF Cons.prems(1)])
  moreover have "promises (step m ev st) p = Some s"
    by (rule settled_step [OF Cons.prems])
  ultimately show ?case using Cons.IH Cons.prems(3) by simp
qed

lemma pending_has_timeout:
  assumes inv: "invariant st" and s: "promises st p = Some Pending"
  shows "\<exists>i. timeouts st p = Some \<lparr>delay = 10000, t_id = i, t_promise = p\<rparr>"
    and "promises (timeout_fires p st) p = Some (Rejected (Error ''Path generation timeout''))"
proof -
  from inv have h: "handles_ok st" by (simp add: invariant_def)
  from handles_okD(5) [OF h s] obtain tm where tm: "timeouts st p = Some tm" by auto
  from handles_okD(3) [OF h tm] have "t_promise tm = p" "delay tm = 10000" by simp_all
  then have "tm = \<lparr>delay = 10000, t_id = t_id tm, t_promise = p\<rparr>" by simp
  with tm show "\<exists>i. timeouts st p = Some \<lparr>delay = 10000, t_id = i, t_promise = p\<rparr>"
    by metis
  show "promises (timeout_fires p st) p = Some (Rejected (Error ''Path generation timeout''))"
    using tm \<open>t_promise tm = p\<close> s by (simp add: timeout_fires_def settle_apply)
qed

lemma absent_step:
  assumes i: "i = requestId c time" and c: "c \<le> requestIdCounter st"
    and k: "i \<notin> fst ` set (pendingRequests st)"
  shows "i \<notin> fst ` set (pendingRequests (step m ev st))"
    and "c \<le> requestIdCounter (step m ev st)"
proof -
  have new: "requestId (requestIdCounter st + 1) time' \<noteq> i" for time'
  proof
    assume "requestId (requestIdCounter st + 1) time' = i"
    with i have "requestId (requestIdCounter st + 1) time' = requestId c time" by simp
    from requestId_inj [OF this] c show False by simp
  qed
  have "i \<notin> fst ` set (pendingRequests (step m ev st)) \<and> c \<le> requestIdCounter (step m ev st)"
  proof (cases ev)
    case (CallSymmetric en w h e)
    then show ?thesis using k c new [of "now en"]
      by (auto simp: generatePathAsync_snd initWorker_fields sendRequest_fields dom_update)
  next
    case (CallAsymmetric en w h cs)
    then show ?thesis using k c new [of "now en"]
      by (auto simp: generatePerCornerPathAsync_snd initWorker_fields sendRequest_fields
          dom_update)
  next
    case (Message data)
    then show ?thesis using k c
      by (auto simp: worker_onmessage_def Let_def entry_reject_def entry_resolve_def emit_def
          keys_delete split: option.split)
  next
    case (WorkerError message)
    then show ?thesis using c by (simp add: worker_onerror_fields)
  next
    case (TimeoutFires t)
    then show ?thesis using k c
      by (auto simp: timeout_fires_def keys_delete split: option.split)
  next
    case CallTerminate
    then show ?thesis using k c by (simp add: terminateWorker_def emit_def)
  qed
  then show "i \<notin> fst ` set (pendingRequests (step m ev st))"
    and "c \<le> requestIdCounter (step m ev st)" by simp_all
qed

lemma absent_run:
  assumes "i = requestId c time" and "c \<le> requestIdCounter st"
    and "i \<notin> fst ` set (pendingRequests st)"
  shows "i \<notin> fst ` set (pendingRequests (run m evs st))"
  using assms
proof (induction evs arbitrary: st)
  case Nil
  then show ?case by simp
next
  case (Cons ev evs)
  from absent_step [OF Cons.prems, of m ev] Cons.IH [OF Cons.prems(1)]
  show ?case by simp
qed

subsection \<open>One request among the others\<close>

lemma request_invI:
  assumes "invariant st" and "p < nextPromise st"
    and "\<exists>c time. i = requestId c time \<and> c \<le> requestIdCounter st"
    and "\<And>k r. (k, r) \<in> set (pendingRequests st) \<Longrightarrow> promise r = p \<Longrightarrow> k = i"
    and "\<And>v. promises st p = Some (Fulfilled v) \<Longrightarrow> v = Some path"
    and "\<And>r. map_of (pendingRequests st) i = Some r \<Longrightarrow>
           promise r = p \<and> promises st p = Some Pending"
  shows "request_inv i p path st"
  unfolding request_inv_def using assms by blast

lemma request_invD:
  assumes "request_inv i p path st"
  shows "invariant st" and "p < nextPromise st"
    and "\<exists>c time. i = requestId c time \<and> c \<le> requestIdCounter st"
    and "\<And>k r. (k, r) \<in> set (pendingRequests st) \<Longrightarrow> promise r = p \<Longrightarrow> k = i"
    and "\<And>v. promises st p = Some (Fulfilled v) \<Longrightarrow> v = Some path"
    and "\<And>r. map_of (pendingRequests st) i = Some r \<Longrightarrow>
           promise r = p \<and> promises st p = Some Pending"
  using assms unfolding request_inv_def by blast+

lemma request_inv_sendRequest_new:
  assumes inv: "invariant st" and w: "worker st" and post: "postThrows ev = None"
  shows "request_inv (requestId (requestIdCounter st + 1) (now ev)) (nextPromise st) path
           (snd (sendRequest ev message st))"
proof (rule request_invI)
  let ?i = "requestId (requestIdCounter st + 1) (now ev)"
  let ?st' = "snd (sendRequest ev message st)"
  from inv have h: "handles_ok st" and e: "entries_ok st" by (simp_all add: invariant_def)
  note hd = handles_okD [OF h]
  show "invariant ?st'" by (rule inv_sendRequest [OF inv w])
  show "nextPromise st < nextPromise ?st'" by (simp add: sendRequest_fields)
  show "\<exists>c time. ?i = requestId c time \<and> c \<le> requestIdCounter ?st'"
    by (rule exI [of _ "requestIdCounter st + 1"], rule exI [of _ "now ev"])
       (simp add: sendRequest_fields)
  show "k = ?i" if a: "(k, r) \<in> set (pendingRequests ?st')" and b: "promise r = nextPromise st" for k r
  proof -
    from a have "(k, r) = (?i, \<lparr>timeoutId = nextTimeout st, promise = nextPromise st\<rparr>)
        \<or> (k, r) \<in> set (pendingRequests st)"
      using set_update_subset [of ?i _ "pendingRequests st"] by (auto simp: sendRequest_fields)
    then show ?thesis
    proof
      assume "(k, r) \<in> set (pendingRequests st)"
      from entry_timeout_lt [OF h e this] b hd(1) show ?thesis by simp
    qed simp
  qed
  show "v = Some path" if "promises ?st' (nextPromise st) = Some (Fulfilled v)" for v
    using that by (simp add: sendRequest_fields post)
  show "promise r = nextPromise st \<and> promises ?st' (nextPromise st) = Some Pending"
    if "map_of (pendingRequests ?st') ?i = Some r" for r
    using that by (auto simp: sendRequest_fields post update_conv')
qed

lemma request_inv_sendRequest_other:
  assumes J: "request_inv i p path st" and w: "worker st"
  shows "request_inv i p path (snd (sendRequest ev message st))"
proof (rule request_invI)
  let ?i' = "requestId (requestIdCounter st + 1) (now ev)"
  let ?st' = "snd (sendRequest ev message st)"
  note jd = request_invD [OF J]
  from jd(3) obtain c time where i: "i = requestId c time" and c: "c \<le> requestIdCounter st"
    by blast
  have ne: "?i' \<noteq> i"
  proof
    assume "?i' = i"
    with i have "requestId (requestIdCounter st + 1) (now ev) = requestId c time" by simp
    from requestId_inj [OF this] c show False by simp
  qed
  show "invariant ?st'" by (rule inv_sendRequest [OF jd(1) w])
  show "p < nextPromise ?st'" using jd(2) by (simp add: sendRequest_fields)
  show "\<exists>c time. i = requestId c time \<and> c \<le> requestIdCounter ?st'"
    using i c by (auto simp: sendRequest_fields)
  show "k = i" if a: "(k, r) \<in> set (pendingRequests ?st')" and b: "promise r = p" for k r
  proof -
    from a have "(k, r) = (?i', \<lparr>timeoutId = nextTimeout st, promise = nextPromise st\<rparr>)
        \<or> (k, r) \<in> set (pendingRequests st)"
      using set_update_subset [of ?i' _ "pendingRequests st"] by (auto simp: sendRequest_fields)
    then show ?thesis
    proof
      assume "(k, r) = (?i', \<lparr>timeoutId = nextTimeout st, promise = nextPromise st\<rparr>)"
      with b jd(2) show ?thesis by simp
    next
      assume "(k, r) \<in> set (pendingRequests st)"
      from jd(4) [OF this b] show ?thesis .
    qed
  qed
  have same: "promises ?st' p = promises st p"
    using jd(2) by (simp add: sendRequest_fields)
  show "v = Some path" if "promises ?st' p = Some (Fulfilled v)" for v
    using that jd(5) by (simp add: same)
  show "promise r = p \<and> promises ?st' p = Some Pending"
    if "map_of (pendingRequests ?st') i = Some r" for r
  proof -
    from that ne have "map_of (pendingRequests st) i = Some r"
      by (simp add: sendRequest_fields update_conv')
    from jd(6) [OF this] show ?thesis by (simp add: same)
  qed
qed

lemma request_inv_frame:
  assumes J: "request_inv i p path st" and inv: "invariant st'"
    and "nextPromise st' = nextPromise st" and "requestIdCounter st' = requestIdCounter st"
    and "set (pendingRequests st') \<subseteq> set (pendingRequests st)"
    and "\<And>r. map_of (pendingRequests st') i = Some r \<Longrightarrow>
           map_of (pendingRequests st) i = Some r \<and> promises st' p = promises st p"
    and "\<And>v. promises st' p = Some (Fulfilled v) \<Longrightarrow>
           promises st p = Some (Fulfilled v) \<or> v = Some path"
  shows "request_inv i p path st'"
proof (rule request_invI)
  note jd = request_invD [OF J]
  show "invariant st'" by (rule inv)
  show "p < nextPromise st'" using jd(2) assms(3) by simp
  show "\<exists>c time. i = requestId c time \<and> c \<le> requestIdCounter st'"
    using jd(3) assms(4) by simp
  show "k = i" if "(k, r) \<in> set (pendingRequests st')" and "promise r = p" for k r
    using jd(4) [of k r] that assms(5) by blast
  show "v = Some path" if "promises st' p = Some (Fulfilled v)" for v
    using assms(7) [OF that] jd(5) by blast
  show "promise r = p \<and> promises st' p = Some Pending"
    if "map_of (pendingRequests st') i = Some r" for r
    using assms(6) [OF that] jd(6) [of r] by simp
qed

lemma request_inv_initWorker:
  assumes J: "request_inv i p path st"
  shows "request_inv i p path (snd (initWorker ev st))"
  by (rule request_inv_frame [OF J inv_initWorker [OF request_invD(1) [OF J]]])
     (simp_all add: initWorker_fields)

lemma request_inv_terminateWorker:
  assumes J: "request_inv i p path st"
  shows "request_inv i p path (terminateWorker st)"
  by (rule request_inv_frame [OF J inv_terminateWorker [OF request_invD(1) [OF J]]])
     (auto simp add: terminateWorker_def emit_def split: if_splits)

lemma request_inv_worker_onerror:
  assumes J: "request_inv i p path st"
  shows "request_inv i p path (worker_onerror message st)"
  by (rule request_inv_frame [OF J inv_worker_onerror [OF request_invD(1) [OF J]]])
     (simp_all add: worker_onerror_fields worker_onerror_promises split: if_splits)

lemma request_inv_timeout_fires:
  assumes J: "request_inv i p path st"
  shows "request_inv i p path (timeout_fires t st)"
proof (cases "timeouts st t")
  case None
  then show ?thesis using J by (simp add: timeout_fires_def)
next
  case (Some tm)
  note eq = timeout_fires_armed [OF Some]
  note jd = request_invD [OF J]
  from jd(1) have h: "handles_ok st" and e: "entries_ok st" by (simp_all add: invariant_def)
  have tp: "t_promise tm = t" using handles_okD(3) [OF h Some] by simp
  show ?thesis
  proof (rule request_inv_frame [OF J inv_timeout_fires [OF jd(1)]])
    show "nextPromise (timeout_fires t st) = nextPromise st" by (simp add: eq)
    show "requestIdCounter (timeout_fires t st) = requestIdCounter st" by (simp add: eq)
    show "set (pendingRequests (timeout_fires t st)) \<subseteq> set (pendingRequests st)"
      by (auto simp: eq set_delete)
    show "map_of (pendingRequests st) i = Some r
            \<and> promises (timeout_fires t st) p = promises st p"
      if a: "map_of (pendingRequests (timeout_fires t st)) i = Some r" for r
    proof -
      from a have ne: "t_id tm \<noteq> i"
        by (auto simp: eq map_of_delete_same)
      with a have m: "map_of (pendingRequests st) i = Some r" by (simp add: eq)
      then have mem: "(i, r) \<in> set (pendingRequests st)" by (rule map_of_SomeD)
      have "promise r = p" using jd(6) [OF m] by simp
      with entry_timeout_lt(2) [OF h e mem] have "timeoutId r = p" by simp
      with entries_okD(1) [OF e mem] Some ne have "t \<noteq> p" by auto
      then show ?thesis using m by (simp add: eq settle_apply tp)
    qed
    show "promises st p = Some (Fulfilled v) \<or> v = Some path"
      if "promises (timeout_fires t st) p = Some (Fulfilled v)" for v
      using that by (auto simp: eq settle_apply split: if_splits)
  qed
qed

lemma request_inv_worker_onmessage:
  assumes J: "request_inv i p path st"
    and ans: "res_id data \<noteq> i \<or> data = \<lparr>res_id = i, pathData = Some path, error = None\<rparr>"
  shows "request_inv i p path (worker_onmessage data st)"
proof (cases "map_of (pendingRequests st) (res_id data)")
  case None
  show ?thesis
    by (rule request_inv_frame [OF J inv_worker_onmessage [OF request_invD(1) [OF J]]])
       (simp_all add: onmessage_unknown [OF None] emit_def)
next
  case (Some r)
  let ?st' = "worker_onmessage data st"
  note jd = request_invD [OF J]
  have mem: "(res_id data, r) \<in> set (pendingRequests st)" by (rule map_of_SomeD [OF Some])
  have pend: "pendingRequests ?st' = AList.delete (res_id data) (pendingRequests st)"
    using Some
    by (simp add: worker_onmessage_def Let_def entry_reject_def entry_resolve_def
        split: option.split)
  have other: "promises ?st' p = promises st p" if "promise r \<noteq> p"
    using Some that
    by (simp add: worker_onmessage_def Let_def entry_reject_def entry_resolve_def settle_apply
        split: option.split)
  have ours: "promises ?st' p =
      (if promises st p = Some Pending then Some (Fulfilled (Some path)) else promises st p)"
    if "promise r = p"
  proof -
    from jd(4) [OF mem that] ans
    have "data = \<lparr>res_id = i, pathData = Some path, error = None\<rparr>" by simp
    then have "error data = None" "pathData data = Some path" by simp_all
    with Some that show ?thesis
      by (simp add: worker_onmessage_def Let_def entry_resolve_def settle_apply)
  qed
  show ?thesis
  proof (rule request_inv_frame [OF J inv_worker_onmessage [OF jd(1)]])
    show "nextPromise ?st' = nextPromise st"
      using Some
      by (simp add: worker_onmessage_def Let_def entry_reject_def entry_resolve_def
          split: option.split)
    show "requestIdCounter ?st' = requestIdCounter st"
      using Some
      by (simp add: worker_onmessage_def Let_def entry_reject_def entry_resolve_def
          split: option.split)
    show "set (pendingRequests ?st') \<subseteq> set (pendingRequests st)"
      by (auto simp: pend set_delete)
    show "map_of (pendingRequests st) i = Some r' \<and> promises ?st' p = promises st p"
      if a: "map_of (pendingRequests ?st') i = Some r'" for r'
    proof -
      from a have ne: "res_id data \<noteq> i"
        by (auto simp: pend map_of_delete_same)
      with a have m: "map_of (pendingRequests st) i = Some r'" by (simp add: pend)
      have "promise r \<noteq> p" using jd(4) [OF mem] ne by blast
      from other [OF this] m show ?thesis by simp
    qed
    show "promises st p = Some (Fulfilled v) \<or> v = Some path"
      if a: "promises ?st' p = Some (Fulfilled v)" for v
    proof (cases "promise r = p")
      case True
      from a show ?thesis by (auto simp: ours [OF True] split: if_splits)
    next
      case False
      from a show ?thesis by (simp add: other [OF False])
    qed
  qed
qed

lemma request_inv_step:
  assumes J: "request_inv i p path st" and a: "answers m msg ev"
    and i: "msg_id msg = i"
    and w: "self_onmessage m msg = [\<lparr>res_id = i, pathData = Some path, error = None\<rparr>]"
  shows "request_inv i p path (step m ev st)"
proof (cases ev)
  case (CallSymmetric en w h e)
  show ?thesis
    using request_inv_initWorker [OF J, of en]
      request_inv_sendRequest_other [of i p path "snd (initWorker en st)" en]
    by (simp add: CallSymmetric generatePathAsync_snd initWorker_fields)
next
  case (CallAsymmetric en w h c)
  show ?thesis
    using request_inv_initWorker [OF J, of en]
      request_inv_sendRequest_other [of i p path "snd (initWorker en st)" en]
    by (simp add: CallAsymmetric generatePerCornerPathAsync_snd initWorker_fields)
next
  case (Message data)
  with a i w have "res_id data \<noteq> i \<or> data = \<lparr>res_id = i, pathData = Some path, error = None\<rparr>"
    by auto
  from request_inv_worker_onmessage [OF J this] show ?thesis by (simp add: Message)
qed (simp_all add: J request_inv_worker_onerror request_inv_timeout_fires
      request_inv_terminateWorker)

lemma request_inv_run:
  assumes "request_inv i p path st" and "list_all (answers m msg) evs"
    and "msg_id msg = i"
    and "self_onmessage m msg = [\<lparr>res_id = i, pathData = Some path, error = None\<rparr>]"
  shows "request_inv i p path (run m evs st)"
  using assms
proof (induction evs arbitrary: st)
  case Nil
  then show ?case by simp
next
  case (Cons ev evs)
  from Cons.prems have "request_inv i p path (step m ev st)"
    by (intro request_inv_step [where msg = msg]) simp_all
  with Cons.IH Cons.prems show ?case by simp
qed

lemma request_inv_delivery:
  assumes J: "request_inv i p path st" and k: "i \<in> fst ` set (pendingRequests st)"
  shows "promises (worker_onmessage \<lparr>res_id = i, pathData = Some path, error = None\<rparr> st) p
           = Some (Fulfilled (Some path))"
proof -
  from in_keys_map_of [OF k] obtain r where r: "map_of (pendingRequests st) i = Some r" ..
  from request_invD(6) [OF J r] r show ?thesis
    by (simp add: worker_onmessage_def entry_resolve_def settle_apply)
qed

lemma rejected_step:
  assumes J: "request_inv i p path st" and a: "answers m msg ev"
    and i: "msg_id msg = i"
    and w: "self_onmessage m msg = [\<lparr>res_id = i, pathData = Some path, error = None\<rparr>]"
    and new: "promises (step m ev st) p = Some (Rejected x)"
  shows "promises st p = Some (Rejected x) \<or> x = Error ''Path generation timeout''
           \<or> (\<exists>message. x = Error (''Worker error: '' @ message))"
proof -
  note jd = request_invD [OF J]
  have send: "promises (snd (sendRequest en message (snd (initWorker en st)))) p = promises st p"
    for en and message :: "string \<Rightarrow> 'a WorkerMessage"
    using jd(2) by (simp add: sendRequest_fields initWorker_fields)
  show ?thesis
  proof (cases ev)
    case (CallSymmetric en w h e)
    then show ?thesis using new send
      by (simp add: generatePathAsync_snd initWorker_fields split: if_splits)
  next
    case (CallAsymmetric en w h c)
    then show ?thesis using new send
      by (simp add: generatePerCornerPathAsync_snd initWorker_fields split: if_splits)
  next
    case (Message data)
    with a i w have ans: "res_id data \<noteq> i \<or> data = \<lparr>res_id = i, pathData = Some path, error = None\<rparr>"
      by auto
    show ?thesis
    proof (cases "map_of (pendingRequests st) (res_id data)")
      case None
      with new show ?thesis by (simp add: Message onmessage_unknown emit_def)
    next
      case (Some r)
      have mem: "(res_id data, r) \<in> set (pendingRequests st)" by (rule map_of_SomeD [OF Some])
      show ?thesis
      proof (cases "promise r = p")
        case False
        then have "promises (worker_onmessage data st) p = promises st p"
          using onmessage_found(3) [OF Some, of p] by simp
        with new show ?thesis by (simp add: Message)
      next
        case True
        from jd(4) [OF mem True] ans
        have "data = \<lparr>res_id = i, pathData = Some path, error = None\<rparr>" by simp
        then have "error data = None" "pathData data = Some path" by simp_all
        with Some True have "promises (worker_onmessage data st) p =
            (if promises st p = Some Pending then Some (Fulfilled (Some path)) else promises st p)"
          by (simp add: worker_onmessage_def Let_def entry_resolve_def settle_apply)
        with new show ?thesis by (simp add: Message split: if_splits)
      qed
    qed
  next
    case (WorkerError message)
    with new show ?thesis by (auto simp: worker_onerror_promises split: if_splits)
  next
    case (TimeoutFires t)
    with new show ?thesis
      by (auto simp: timeout_fires_def settle_apply split: option.splits if_splits)
  next
    case CallTerminate
    with new show ?thesis by (simp add: terminateWorker_def emit_def split: if_splits)
  qed
qed

lemma rejected_run:
  assumes "request_inv i p path st" and "list_all (answers m msg) evs"
    and "msg_id msg = i"
    and "self_onmessage m msg = [\<lparr>res_id = i, pathData = Some path, error = None\<rparr>]"
    and "promises (run m evs st) p = Some (Rejected x)"
  shows "promises st p = Some (Rejected x) \<or> x = Error ''Path generation timeout''
           \<or> (\<exists>message. x = Error (''Worker error: '' @ message))"
  using assms
proof (induction evs arbitrary: st)
  case Nil
  then show ?case by simp
next
  case (Cons ev evs)
  have J': "request_inv i p path (step m ev st)"
    using Cons.prems by (intro request_inv_step [where msg = msg]) simp_all
  from Cons.IH [OF J' _ Cons.prems(3,4)] Cons.prems(2,5)
  have "promises (step m ev st) p = Some (Rejected x) \<or> x = Error ''Path generation timeout''
           \<or> (\<exists>message. x = Error (''Worker error: '' @ message))"
    by simp
  then show ?case
  proof (elim disjE)
    assume "promises (step m ev st) p = Some (Rejected x)"
    from rejected_step [OF Cons.prems(1) _ Cons.prems(3,4) this] Cons.prems(2)
    show ?thesis by simp
  qed simp_all
qed

section \<open>Properties of the dispatch layer\<close>

text \<open>
  C1, as the specification states it, fails: a fourth path removes an id.  After one call
  that reached the worker, \<open>terminateWorker\<close> takes the id out of the table although no
  response arrived, no timeout fired and the worker raised no error event; its only
  effect is \<open>worker.terminate()\<close>.
\<close>

theorem terminate_removes_entry_counterexample:
  "''req-1-5'' \<in> fst ` set (pendingRequests (run math0 [CallSymmetric (env_ok 5) 100 50 4] init))
   \<and> ''req-1-5'' \<notin> fst ` set (pendingRequests
         (step math0 CallTerminate (run math0 [CallSymmetric (env_ok 5) 100 50 4] init)))
   \<and> \<not> resolution_path (run math0 [CallSymmetric (env_ok 5) 100 50 4] init) CallTerminate ''req-1-5''
   \<and> trace (step math0 CallTerminate (run math0 [CallSymmetric (env_ok 5) 100 50 4] init))
       = [NewWorker, PostMessage (GENERATE_PATH_SYMMETRIC ''req-1-5'' 100 50 4), Terminate]"
  by (simp add: example_defs handler_defs terminateWorker_def)

text \<open>
  C1, amended.  In every state that the module reaches from its initial state, an id of
  the table leaves the table with the next event exactly when that event is a response
  carrying the id, the firing of the timeout stored in the entry of the id, an error
  event of the worker, or a call of \<open>terminateWorker\<close>; every other event keeps it.  Over
  the whole run no entry has its \<open>resolve\<close> or \<open>reject\<close> called twice.  A promise that is
  settled keeps its state through every later event, and a promise that is pending has
  its 10000 ms timeout armed, whose firing rejects it: a request reaches one terminal
  state and never a second one.
\<close>

theorem pending_entry_lifecycle:
  "(k \<in> fst ` set (pendingRequests (run m evs init)) \<longrightarrow>
      (k \<notin> fst ` set (pendingRequests (step m ev (run m evs init)))
         \<longleftrightarrow> removal_path (run m evs init) ev k))
   \<and> distinct (invoked (trace (run m evs init)))
   \<and> (promises (run m evs init) p = Some s \<and> s \<noteq> Pending \<longrightarrow>
         promises (run m (evs @ evs') init) p = Some s)
   \<and> (promises (run m evs init) p = Some Pending \<longrightarrow>
         (\<exists>i. timeouts (run m evs init) p = Some \<lparr>delay = 10000, t_id = i, t_promise = p\<rparr>)
         \<and> promises (step m (TimeoutFires p) (run m evs init)) p
             = Some (Rejected (Error ''Path generation timeout'')))"
proof (intro conjI impI)
  note inv = inv_reachable [of m evs]
  show "(k \<notin> fst ` set (pendingRequests (step m ev (run m evs init))))
         = removal_path (run m evs init) ev k"
    if "k \<in> fst ` set (pendingRequests (run m evs init))"
    by (rule removed_iff_removal_path [OF inv that])
  show "distinct (invoked (trace (run m evs init)))"
    using inv by (simp add: invariant_def invoked_ok_def)
  show "promises (run m (evs @ evs') init) p = Some s"
    if "promises (run m evs init) p = Some s \<and> s \<noteq> Pending"
    using settled_run [OF inv, of p s m evs'] that by (simp add: run_append)
  assume pend: "promises (run m evs init) p = Some Pending"
  show "\<exists>i. timeouts (run m evs init) p = Some \<lparr>delay = 10000, t_id = i, t_promise = p\<rparr>"
    by (rule pending_has_timeout(1) [OF inv pend])
  show "promises (step m (TimeoutFires p) (run m evs init)) p
             = Some (Rejected (Error ''Path generation timeout''))"
    using pending_has_timeout(2) [OF inv pend] by simp
qed

theorem pending_entry_lifecycle_witness:
  "''req-2-7'' \<in> fst ` set (pendingRequests (run math0 evs3 init))
   \<and> removal_path (run math0 evs3 init) (WorkerError ''crash'') ''req-2-7''
   \<and> ''req-2-7'' \<notin> fst ` set (pendingRequests (step math0 (WorkerError ''crash'') (run math0 evs3 init)))
   \<and> \<not> removal_path (run math0 evs3 init) (CallSymmetric (env_ok 9) 1 1 1) ''req-2-7''
   \<and> ''req-2-7'' \<in> fst ` set (pendingRequests
         (step math0 (CallSymmetric (env_ok 9) 1 1 1) (run math0 evs3 init)))
   \<and> distinct (invoked (trace (run math0 (evs3 @ [WorkerError ''crash'']) init)))
   \<and> promises (run math0 evs3 init) 0 = Some (Rejected (Error ''Path generation timeout''))
   \<and> promises (run math0
         (evs3 @ [Message \<lparr>res_id = ''req-1-5'', pathData = Some ''M 0 0 Z'', error = None\<rparr>,
                  WorkerError ''crash'']) init) 0
       = Some (Rejected (Error ''Path generation timeout''))
   \<and> promises (run math0 evs3 init) 1 = Some Pending
   \<and> timeouts (run math0 evs3 init) 1 = Some \<lparr>delay = 10000, t_id = ''req-2-7'', t_promise = 1\<rparr>
   \<and> promises (step math0 (TimeoutFires 1) (run math0 evs3 init)) 1
       = Some (Rejected (Error ''Path generation timeout''))"
  using pending_entry_lifecycle
    [of "''req-2-7''" math0 evs3 "WorkerError ''crash''" 0 "Rejected (Error ''Path generation timeout'')"
        "[Message \<lparr>res_id = ''req-1-5'', pathData = Some ''M 0 0 Z'', error = None\<rparr>,
          WorkerError ''crash'']"]
    pending_entry_lifecycle
    [of "''req-2-7''" math0 evs3 "CallSymmetric (env_ok 9) 1 1 1" 1 "Pending" "[]"]
    pending_entry_lifecycle
    [of "''req-2-7''" math0 "evs3 @ [WorkerError ''crash'']" "WorkerError ''crash''" 1 "Pending" "[]"]
  by (simp add: evs3_facts evs3_facts [simplified])

text \<open>
  C2, as the specification states it, fails.  The first call below meets a constructor
  that throws and falls back to the generator; the second call evaluates \<open>new Worker\<close>
  again, gets the worker and posts its request instead of computing on the main thread.
\<close>

theorem construction_retried_counterexample:
  "fst (generatePathAsync math0 (env_noworker 5) 100 50 4 init) = Settled (Inr ''M 0 0 Z'')
   \<and> trace (snd (generatePathAsync math0 (env_noworker 5) 100 50 4 init))
       = [NewWorker,
          Warn ''Failed to create Web Worker for path generation, falling back to main thread'']
   \<and> fst (generatePathAsync math0 (env_ok 6) 100 50 4
             (snd (generatePathAsync math0 (env_noworker 5) 100 50 4 init)))
       = Awaits 0
   \<and> fst (generatePathAsync math0 (env_ok 6) 100 50 4
             (snd (generatePathAsync math0 (env_noworker 5) 100 50 4 init)))
       \<noteq> Settled (generatePathSync math0 100 50 4)
   \<and> trace (snd (generatePathAsync math0 (env_ok 6) 100 50 4
                    (snd (generatePathAsync math0 (env_noworker 5) 100 50 4 init))))
       = [NewWorker,
          Warn ''Failed to create Web Worker for path generation, falling back to main thread'',
          NewWorker,
          PostMessage (GENERATE_PATH_SYMMETRIC ''req-1-6'' 100 50 4)]"
  by (simp add: example_defs handler_defs)

text \<open>
  C2, amended.  A failed construction is not recorded: \<open>worker\<close> stays \<open>null\<close>, and every
  call that finds it \<open>null\<close> evaluates \<open>new Worker\<close>.  When the constructor throws, the call
  returns what the synchronous generator returns, changes nothing but the trace (the
  attempt and the warning) and leaves \<open>worker\<close> \<open>null\<close>, so the next call attempts again.
  When the constructor returns, the call keeps the worker and sends the request to it.
  Both entry points.
\<close>

theorem construction_attempted_by_every_call:
  "\<not> worker st \<longrightarrow>
     (\<not> canConstruct ev \<longrightarrow>
        generatePathAsync m ev w h e st =
          (Settled (generatePathSync m w h e),
           emit [NewWorker,
             Warn ''Failed to create Web Worker for path generation, falling back to main thread''] st)
        \<and> generatePerCornerPathAsync m ev w h c st =
          (Settled (generatePerCornerPathSync m w h c),
           emit [NewWorker,
             Warn ''Failed to create Web Worker for path generation, falling back to main thread''] st)
        \<and> \<not> worker (snd (generatePathAsync m ev w h e st))
        \<and> \<not> worker (snd (generatePerCornerPathAsync m ev w h c st)))
     \<and> (canConstruct ev \<longrightarrow>
        fst (generatePathAsync m ev w h e st) = Awaits (nextPromise st)
        \<and> fst (generatePerCornerPathAsync m ev w h c st) = Awaits (nextPromise st)
        \<and> worker (snd (generatePathAsync m ev w h e st))
        \<and> worker (snd (generatePerCornerPathAsync m ev w h c st))
        \<and> trace (snd (generatePathAsync m ev w h e st)) =
            trace st @ NewWorker #
              (case postThrows ev of
                 None \<Rightarrow> [PostMessage (GENERATE_PATH_SYMMETRIC
                            (requestId (requestIdCounter st + 1) (now ev)) w h e)]
               | Some x \<Rightarrow> [])
        \<and> trace (snd (generatePerCornerPathAsync m ev w h c st)) =
            trace st @ NewWorker #
              (case postThrows ev of
                 None \<Rightarrow> [PostMessage (GENERATE_PATH_ASYMMETRIC
                            (requestId (requestIdCounter st + 1) (now ev)) w h c)]
               | Some x \<Rightarrow> []))"
proof (intro conjI impI)
  assume n: "\<not> worker st" and c: "\<not> canConstruct ev"
  show "generatePathAsync m ev w h e st =
          (Settled (generatePathSync m w h e),
           emit [NewWorker,
             Warn ''Failed to create Web Worker for path generation, falling back to main thread''] st)"
    by (rule generatePathAsync_unavailable [OF n c])
  show "generatePerCornerPathAsync m ev w h c st =
          (Settled (generatePerCornerPathSync m w h c),
           emit [NewWorker,
             Warn ''Failed to create Web Worker for path generation, falling back to main thread''] st)"
    by (rule generatePerCornerPathAsync_unavailable [OF n c])
  show "\<not> worker (snd (generatePathAsync m ev w h e st))"
    by (simp add: generatePathAsync_unavailable [OF n c] emit_def n)
  show "\<not> worker (snd (generatePerCornerPathAsync m ev w h c st))"
    by (simp add: generatePerCornerPathAsync_unavailable [OF n c] emit_def n)
next
  assume n: "\<not> worker st" and c: "canConstruct ev"
  then have a: "worker st \<or> canConstruct ev" by simp
  show "fst (generatePathAsync m ev w h e st) = Awaits (nextPromise st)"
    by (simp add: generatePathAsync_available [OF a] sendRequest_fields initWorker_available [OF a])
  show "fst (generatePerCornerPathAsync m ev w h c st) = Awaits (nextPromise st)"
    by (simp add: generatePerCornerPathAsync_available [OF a] sendRequest_fields
        initWorker_available [OF a])
  show "worker (snd (generatePathAsync m ev w h e st))"
    by (simp add: generatePathAsync_available [OF a] sendRequest_fields initWorker_available [OF a])
  show "worker (snd (generatePerCornerPathAsync m ev w h c st))"
    by (simp add: generatePerCornerPathAsync_available [OF a] sendRequest_fields
        initWorker_available [OF a])
  show "trace (snd (generatePathAsync m ev w h e st)) =
            trace st @ NewWorker #
              (case postThrows ev of
                 None \<Rightarrow> [PostMessage (GENERATE_PATH_SYMMETRIC
                            (requestId (requestIdCounter st + 1) (now ev)) w h e)]
               | Some x \<Rightarrow> [])"
    by (simp add: generatePathAsync_available [OF a] sendRequest_fields
        initWorker_available [OF a] n split: option.split)
  show "trace (snd (generatePerCornerPathAsync m ev w h c st)) =
            trace st @ NewWorker #
              (case postThrows ev of
                 None \<Rightarrow> [PostMessage (GENERATE_PATH_ASYMMETRIC
                            (requestId (requestIdCounter st + 1) (now ev)) w h c)]
               | Some x \<Rightarrow> [])"
    by (simp add: generatePerCornerPathAsync_available [OF a] sendRequest_fields
        initWorker_available [OF a] n split: option.split)
qed

theorem construction_attempted_by_every_call_witness:
  "\<not> worker (init :: int state) \<and> \<not> canConstruct (env_noworker 5) \<and> canConstruct (env_ok 6)
   \<and> fst (generatePathAsync math0 (env_noworker 5) 100 50 4 init) = Settled (Inr ''M 0 0 Z'')
   \<and> trace (snd (generatePathAsync math0 (env_noworker 5) 100 50 4 init))
       = [NewWorker,
          Warn ''Failed to create Web Worker for path generation, falling back to main thread'']
   \<and> \<not> worker (snd (generatePathAsync math0 (env_noworker 5) 100 50 4 init))
   \<and> fst (generatePathAsync math0 (env_ok 6) 100 50 4 init) = Awaits 0
   \<and> worker (snd (generatePathAsync math0 (env_ok 6) 100 50 4 init))
   \<and> trace (snd (generatePathAsync math0 (env_ok 6) 100 50 4 init))
       = [NewWorker, PostMessage (GENERATE_PATH_SYMMETRIC ''req-1-6'' 100 50 4)]"
  using construction_attempted_by_every_call [of init "env_noworker 5" math0 100 50 4 corners0]
    construction_attempted_by_every_call [of init "env_ok 6" math0 100 50 4 corners0]
  by (simp add: example_defs emit_def requestId_def decimal.simps)

text \<open>
  C3 holds in the documentation of the code (\<open>Falls back to synchronous generation if
  worker fails\<close>, \<open>Fallback to synchronous generation on any error\<close>) and fails in the
  code: \<open>postMessage\<close> is called inside the executor of \<open>new Promise\<close>, so its exception
  never reaches the \<open>catch\<close> block of the entry point.  With a worker whose \<open>postMessage\<close>
  throws, both entry points return the promise of the request, already rejected with
  the exception, not the synchronous result; the entry stays in the table and its
  timeout stays armed.
\<close>

theorem post_exception_rejects_promise:
  "fst (generatePathAsync math0 (env_postfails 5) 100 50 4 init) = Awaits 0
   \<and> fst (generatePathAsync math0 (env_postfails 5) 100 50 4 init)
       \<noteq> Settled (generatePathSync math0 100 50 4)
   \<and> promises (snd (generatePathAsync math0 (env_postfails 5) 100 50 4 init)) 0
       = Some (Rejected (Error ''DataCloneError''))
   \<and> pendingRequests (snd (generatePathAsync math0 (env_postfails 5) 100 50 4 init))
       = [(''req-1-5'', \<lparr>timeoutId = 0, promise = 0\<rparr>)]
   \<and> timeouts (snd (generatePathAsync math0 (env_postfails 5) 100 50 4 init)) 0
       = Some \<lparr>delay = 10000, t_id = ''req-1-5'', t_promise = 0\<rparr>
   \<and> fst (generatePerCornerPathAsync math0 (env_postfails 5) 100 50 corners0 init) = Awaits 0
   \<and> fst (generatePerCornerPathAsync math0 (env_postfails 5) 100 50 corners0 init)
       \<noteq> Settled (generatePerCornerPathSync math0 100 50 corners0)
   \<and> promises (snd (generatePerCornerPathAsync math0 (env_postfails 5) 100 50 corners0 init)) 0
       = Some (Rejected (Error ''DataCloneError''))
   \<and> pendingRequests (snd (generatePerCornerPathAsync math0 (env_postfails 5) 100 50 corners0 init))
       = [(''req-1-5'', \<lparr>timeoutId = 0, promise = 0\<rparr>)]"
  by (simp add: example_defs handler_defs settle_def)


text \<open>
  What holds of the timeouts.  A call that reaches the worker arms a timeout of 10000 ms
  whose callback holds the id and the promise of the request, and stores the entry under
  that id (both entry points).
\<close>

lemma request_registered_with_timeout:
  assumes a: "worker st \<or> canConstruct ev"
  shows "timeouts (snd (generatePathAsync m ev w h e st)) (nextTimeout st)
        = Some \<lparr>delay = 10000, t_id = requestId (requestIdCounter st + 1) (now ev),
                 t_promise = nextPromise st\<rparr>"
    and "timeouts (snd (generatePerCornerPathAsync m ev w h c st)) (nextTimeout st)
        = Some \<lparr>delay = 10000, t_id = requestId (requestIdCounter st + 1) (now ev),
                 t_promise = nextPromise st\<rparr>"
    and "map_of (pendingRequests (snd (generatePathAsync m ev w h e st)))
            (requestId (requestIdCounter st + 1) (now ev))
        = Some \<lparr>timeoutId = nextTimeout st, promise = nextPromise st\<rparr>"
    and "map_of (pendingRequests (snd (generatePerCornerPathAsync m ev w h c st)))
            (requestId (requestIdCounter st + 1) (now ev))
        = Some \<lparr>timeoutId = nextTimeout st, promise = nextPromise st\<rparr>"
proof -
  show "timeouts (snd (generatePathAsync m ev w h e st)) (nextTimeout st)
        = Some \<lparr>delay = 10000, t_id = requestId (requestIdCounter st + 1) (now ev),
                 t_promise = nextPromise st\<rparr>"
    by (simp add: generatePathAsync_available [OF a] sendRequest_fields initWorker_available [OF a])
  show "timeouts (snd (generatePerCornerPathAsync m ev w h c st)) (nextTimeout st)
        = Some \<lparr>delay = 10000, t_id = requestId (requestIdCounter st + 1) (now ev),
                 t_promise = nextPromise st\<rparr>"
    by (simp add: generatePerCornerPathAsync_available [OF a] sendRequest_fields
        initWorker_available [OF a])
  show "map_of (pendingRequests (snd (generatePathAsync m ev w h e st)))
            (requestId (requestIdCounter st + 1) (now ev))
        = Some \<lparr>timeoutId = nextTimeout st, promise = nextPromise st\<rparr>"
    by (simp add: generatePathAsync_available [OF a] sendRequest_fields
        initWorker_available [OF a] update_conv')
  show "map_of (pendingRequests (snd (generatePerCornerPathAsync m ev w h c st)))
            (requestId (requestIdCounter st + 1) (now ev))
        = Some \<lparr>timeoutId = nextTimeout st, promise = nextPromise st\<rparr>"
    by (simp add: generatePerCornerPathAsync_available [OF a] sendRequest_fields
        initWorker_available [OF a] update_conv')
qed

text \<open>
  And for every entry of the table, in every state reached from the initial state: the
  timeout of the entry is armed, with a delay of 10000 ms, for the id and the promise of
  the entry; when it fires, the entry leaves the table, no \<open>resolve\<close> or \<open>reject\<close> of an entry
  is called, and the promise is rejected with \<open>Path generation timeout\<close> if it was still
  pending (otherwise it keeps its state); whatever happens afterwards, a response with
  that id only logs the warning for an unknown id.
\<close>

lemma timeout_removes_entry_late_response_discarded:
  assumes found: "map_of (pendingRequests (run m evs init)) i = Some r"
  shows "timeouts (run m evs init) (timeoutId r)
           = Some \<lparr>delay = 10000, t_id = i, t_promise = promise r\<rparr>"
    and "pendingRequests (timeout_fires (timeoutId r) (run m evs init))
           = AList.delete i (pendingRequests (run m evs init))"
    and "promises (timeout_fires (timeoutId r) (run m evs init)) (promise r)
           = (if promises (run m evs init) (promise r) = Some Pending
              then Some (Rejected (Error ''Path generation timeout''))
              else promises (run m evs init) (promise r))"
    and "trace (timeout_fires (timeoutId r) (run m evs init)) = trace (run m evs init)"
    and "res_id data = i \<Longrightarrow>
         worker_onmessage data (run m evs' (timeout_fires (timeoutId r) (run m evs init)))
           = emit [Warn (''Received response for unknown request ID: '' @ i)]
               (run m evs' (timeout_fires (timeoutId r) (run m evs init)))"
proof -
  let ?st = "run m evs init"
  have inv: "invariant ?st" by (rule inv_reachable)
  then have h: "handles_ok ?st" and e: "entries_ok ?st" by (simp_all add: invariant_def)
  have mem: "(i, r) \<in> set (pendingRequests ?st)" by (rule map_of_SomeD [OF found])
  show armed: "timeouts ?st (timeoutId r) = Some \<lparr>delay = 10000, t_id = i, t_promise = promise r\<rparr>"
    by (rule entries_okD(1) [OF e mem])
  note eq = timeout_fires_armed [OF armed]
  show "pendingRequests (timeout_fires (timeoutId r) ?st) = AList.delete i (pendingRequests ?st)"
    by (simp add: eq)
  show "promises (timeout_fires (timeoutId r) ?st) (promise r)
           = (if promises ?st (promise r) = Some Pending
              then Some (Rejected (Error ''Path generation timeout''))
              else promises ?st (promise r))"
    by (simp add: eq settle_apply)
  show "trace (timeout_fires (timeoutId r) ?st) = trace ?st"
    by (simp add: eq)
  assume d: "res_id data = i"
  from entry_timeout_lt [OF h e mem] obtain time
    where i: "i = requestId (timeoutId r + 1) time" and lt: "timeoutId r < requestIdCounter ?st"
    by auto
  have "i \<notin> fst ` set (pendingRequests (run m evs' (timeout_fires (timeoutId r) ?st)))"
  proof (rule absent_run [OF i])
    show "timeoutId r + 1 \<le> requestIdCounter (timeout_fires (timeoutId r) ?st)"
      using lt by (simp add: eq)
    show "i \<notin> fst ` set (pendingRequests (timeout_fires (timeoutId r) ?st))"
      by (simp add: eq keys_delete)
  qed
  then have "map_of (pendingRequests (run m evs' (timeout_fires (timeoutId r) ?st))) (res_id data)
               = None"
    by (simp add: d map_of_eq_None_iff)
  from onmessage_unknown [OF this] d
  show "worker_onmessage data (run m evs' (timeout_fires (timeoutId r) ?st))
           = emit [Warn (''Received response for unknown request ID: '' @ i)]
               (run m evs' (timeout_fires (timeoutId r) ?st))"
    by simp
qed


text \<open>
  What holds of the two kinds of errors.  The error handler of the worker empties the
  table and calls the \<open>reject\<close> of every entry that was pending, once each and in the order
  of the table, with the error \<open>Worker error: <message>\<close>; every promise among them that
  was still pending is then rejected with that error.  A response for an id of the table
  touches the entry of that id only: that entry leaves the table and is the only one
  called, every other id keeps its entry, every other promise its state and every other
  timeout stays armed.  When the \<open>error\<close> field of the response is a non-empty string the
  call is the \<open>reject\<close> of the entry, with that string as the message.
\<close>

lemma worker_error_rejects_all_response_one:
  "pendingRequests (worker_onerror message st) = []
   \<and> trace (worker_onerror message st) =
       trace st @ LogError (''Worker error: '' @ message)
         # map (\<lambda>(k, r). CallReject r (Error (''Worker error: '' @ message))) (pendingRequests st)
   \<and> (\<forall>(k, r) \<in> set (pendingRequests st).
         promises st (promise r) = Some Pending \<longrightarrow>
         promises (worker_onerror message st) (promise r)
           = Some (Rejected (Error (''Worker error: '' @ message))))
   \<and> (map_of (pendingRequests st) (res_id data) = Some r' \<longrightarrow>
         pendingRequests (worker_onmessage data st)
           = AList.delete (res_id data) (pendingRequests st)
         \<and> (\<forall>k. k \<noteq> res_id data \<longrightarrow>
               map_of (pendingRequests (worker_onmessage data st)) k
                 = map_of (pendingRequests st) k)
         \<and> invoked (trace (worker_onmessage data st)) = invoked (trace st) @ [r']
         \<and> (\<forall>p. p \<noteq> promise r' \<longrightarrow>
               promises (worker_onmessage data st) p = promises st p)
         \<and> (\<forall>t. t \<noteq> timeoutId r' \<longrightarrow>
               timeouts (worker_onmessage data st) t = timeouts st t)
         \<and> (error data = Some e \<and> e \<noteq> [] \<longrightarrow>
               trace (worker_onmessage data st) = trace st @ [CallReject r' (Error e)]
               \<and> (promises st (promise r') = Some Pending \<longrightarrow>
                     promises (worker_onmessage data st) (promise r')
                       = Some (Rejected (Error e)))))"
proof (intro conjI impI allI)
  show "pendingRequests (worker_onerror message st) = []"
    by (simp add: worker_onerror_fields)
  show "trace (worker_onerror message st) =
       trace st @ LogError (''Worker error: '' @ message)
         # map (\<lambda>(k, r). CallReject r (Error (''Worker error: '' @ message))) (pendingRequests st)"
    by (rule worker_onerror_trace)
  show "\<forall>(k, r) \<in> set (pendingRequests st).
         promises st (promise r) = Some Pending \<longrightarrow>
         promises (worker_onerror message st) (promise r)
           = Some (Rejected (Error (''Worker error: '' @ message)))"
    using worker_onerror_rejects by fastforce
next
  assume found: "map_of (pendingRequests st) (res_id data) = Some r'"
  note f = onmessage_found [OF found]
  show "pendingRequests (worker_onmessage data st)
           = AList.delete (res_id data) (pendingRequests st)"
    by (rule f(1))
  show "invoked (trace (worker_onmessage data st)) = invoked (trace st) @ [r']"
    by (rule f(2))
  show "map_of (pendingRequests (worker_onmessage data st)) k = map_of (pendingRequests st) k"
    if "k \<noteq> res_id data" for k
    using that by (simp add: f(1))
  show "promises (worker_onmessage data st) p = promises st p" if "p \<noteq> promise r'" for p
    by (rule f(3) [OF that])
  show "timeouts (worker_onmessage data st) t = timeouts st t" if "t \<noteq> timeoutId r'" for t
    by (rule f(4) [OF that])
  assume "error data = Some e \<and> e \<noteq> []"
  then have eq: "worker_onmessage data st =
     entry_reject r' (Error e)
       (st\<lparr>pendingRequests := AList.delete (res_id data) (pendingRequests st)\<rparr>)"
    using found by (simp add: onmessage_error)
  show "trace (worker_onmessage data st) = trace st @ [CallReject r' (Error e)]"
    by (simp add: eq entry_reject_def)
  assume "promises st (promise r') = Some Pending"
  then show "promises (worker_onmessage data st) (promise r') = Some (Rejected (Error e))"
    by (simp add: eq entry_reject_def settle_apply)
qed

lemma worker_error_rejects_all_response_one_example:
  "pendingRequests (worker_onerror ''crash'' st_two) = []
   \<and> trace (worker_onerror ''crash'' st_two) =
       trace st_two @ [LogError ''Worker error: crash'',
         CallReject \<lparr>timeoutId = 0, promise = 0\<rparr> (Error ''Worker error: crash''),
         CallReject \<lparr>timeoutId = 1, promise = 1\<rparr> (Error ''Worker error: crash'')]
   \<and> promises st_two 0 = Some Pending \<and> promises st_two 1 = Some Pending
   \<and> promises (worker_onerror ''crash'' st_two) 0 = Some (Rejected (Error ''Worker error: crash''))
   \<and> promises (worker_onerror ''crash'' st_two) 1 = Some (Rejected (Error ''Worker error: crash''))
   \<and> map_of (pendingRequests st_two) ''req-2-7'' = Some \<lparr>timeoutId = 1, promise = 1\<rparr>
   \<and> trace (worker_onmessage \<lparr>res_id = ''req-2-7'', pathData = None, error = Some ''boom''\<rparr> st_two)
       = trace st_two @ [CallReject \<lparr>timeoutId = 1, promise = 1\<rparr> (Error ''boom'')]
   \<and> pendingRequests (worker_onmessage \<lparr>res_id = ''req-2-7'', pathData = None, error = Some ''boom''\<rparr> st_two)
       = [(''req-1-5'', \<lparr>timeoutId = 0, promise = 0\<rparr>)]
   \<and> promises (worker_onmessage \<lparr>res_id = ''req-2-7'', pathData = None, error = Some ''boom''\<rparr> st_two) 0
       = Some Pending
   \<and> promises (worker_onmessage \<lparr>res_id = ''req-2-7'', pathData = None, error = Some ''boom''\<rparr> st_two) 1
       = Some (Rejected (Error ''boom''))"
  using worker_error_rejects_all_response_one
    [of "''crash''" st_two "\<lparr>res_id = ''req-2-7'', pathData = None, error = Some ''boom''\<rparr>"
        "\<lparr>timeoutId = 1, promise = 1\<rparr>" "''boom''"]
  by (simp add: st_two_facts)

text \<open>
  C6, as the specification states it, fails in its last part: the promises that were
  pending at \<open>terminateWorker\<close> are not abandoned for good.  \<open>terminateWorker\<close> clears the
  table and no timeout, so the timeout of the request below fires after the teardown
  and rejects the promise.
\<close>

theorem terminate_then_timeout_counterexample:
  "worker (run math0 [CallSymmetric (env_ok 5) 100 50 4] init)
   \<and> promises (run math0 [CallSymmetric (env_ok 5) 100 50 4] init) 0 = Some Pending
   \<and> pendingRequests (run math0 [CallSymmetric (env_ok 5) 100 50 4, CallTerminate] init) = []
   \<and> promises (run math0 [CallSymmetric (env_ok 5) 100 50 4, CallTerminate] init) 0 = Some Pending
   \<and> promises (run math0 [CallSymmetric (env_ok 5) 100 50 4, CallTerminate, TimeoutFires 0] init) 0
       = Some (Rejected (Error ''Path generation timeout''))"
  by (simp add: example_defs handler_defs settle_def terminateWorker_def timeout_fires_def)

text \<open>
  C6, amended.  \<open>terminateWorker\<close> with a worker sets \<open>worker\<close> to \<open>null\<close>, empties the
  table and calls \<open>worker.terminate()\<close>; that is its only effect, so it calls no \<open>resolve\<close>
  and no \<open>reject\<close>, and it leaves every promise and every armed timeout as it was.  Each
  timeout that is armed for a pending promise therefore still rejects that promise with
  \<open>Path generation timeout\<close> when it fires after the teardown.
\<close>

theorem terminate_clears_without_callbacks:
  "worker st \<longrightarrow>
     \<not> worker (terminateWorker st)
     \<and> pendingRequests (terminateWorker st) = []
     \<and> trace (terminateWorker st) = trace st @ [Terminate]
     \<and> promises (terminateWorker st) = promises st
     \<and> timeouts (terminateWorker st) = timeouts st
     \<and> (\<forall>t tm. timeouts st t = Some tm \<and> promises st (t_promise tm) = Some Pending \<longrightarrow>
           promises (timeout_fires t (terminateWorker st)) (t_promise tm)
             = Some (Rejected (Error ''Path generation timeout'')))"
  by (simp add: terminateWorker_def emit_def timeout_fires_def settle_apply)

theorem terminate_clears_without_callbacks_witness:
  "worker st_two
   \<and> \<not> worker (terminateWorker st_two)
   \<and> pendingRequests (terminateWorker st_two) = []
   \<and> trace (terminateWorker st_two) = trace st_two @ [Terminate]
   \<and> timeouts st_two 1 = Some \<lparr>delay = 10000, t_id = ''req-2-7'', t_promise = 1\<rparr>
   \<and> promises st_two 1 = Some Pending
   \<and> promises (terminateWorker st_two) 1 = Some Pending
   \<and> promises (timeout_fires 1 (terminateWorker st_two)) 1
       = Some (Rejected (Error ''Path generation timeout''))"
  using terminate_clears_without_callbacks [of st_two]
  by (simp add: st_two_eval terminateWorker_def emit_def timeout_fires_def settle_def)

text \<open>
  C7, as the specification states it, fails in two ways.  With a worker, the promise of
  the call need not be fulfilled at all: below, the timeout of the request fires before
  any response and the promise is rejected with \<open>Path generation timeout\<close>, while
  \<open>generatePathSync\<close> returns the path for the same arguments.  And a construction that
  failed at an earlier call does not make the worker unavailable: the next call
  constructs it again, and when that succeeds the call registers a request in the table
  and returns its promise, not the synchronous result.
\<close>

theorem async_result_differs_counterexample:
  "generatePathSync math0 100 50 4 = Inr ''M 0 0 Z''
   \<and> fst (generatePathAsync math0 (env_ok 5) 100 50 4 init) = Awaits 0
   \<and> promises (run math0 [CallSymmetric (env_ok 5) 100 50 4, TimeoutFires 0] init) 0
       = Some (Rejected (Error ''Path generation timeout''))
   \<and> \<not> worker (run math0 [CallSymmetric (env_noworker 3) 100 50 4] init)
   \<and> trace (run math0 [CallSymmetric (env_noworker 3) 100 50 4] init)
       = [NewWorker,
          Warn ''Failed to create Web Worker for path generation, falling back to main thread'']
   \<and> fst (generatePathAsync math0 (env_ok 5) 100 50 4
             (run math0 [CallSymmetric (env_noworker 3) 100 50 4] init)) = Awaits 0
   \<and> pendingRequests (snd (generatePathAsync math0 (env_ok 5) 100 50 4
             (run math0 [CallSymmetric (env_noworker 3) 100 50 4] init)))
       = [(''req-1-5'', \<lparr>timeoutId = 0, promise = 0\<rparr>)]"
  by (simp add: example_defs handler_defs settle_def timeout_fires_def)

text \<open>
  C7, amended.  Without a worker (\<open>worker\<close> is \<open>null\<close> and the constructor throws at this
  call) \<open>generatePathAsync\<close> is settled at once with what \<open>generatePathSync\<close> gives for the
  same arguments (its path or its exception), and the table, the promises and the
  timeouts are unchanged.  With a worker whose \<open>postMessage\<close> returns, when
  \<open>generatePathSync\<close> gives the path \<open>path\<close> for the arguments and the worker runs the same
  generator: the call posts the symmetric message with the new id, the worker answers
  that message with \<open>{ id, pathData: path }\<close>, and the delivery of that answer fulfils the
  promise of the call with \<open>path\<close>.  The same holds among other requests: when the call
  is made in a state reached from the initial state and any events follow in which the
  responses with the id of the call are the worker's answers to its message, the promise
  of the call is never fulfilled with anything but \<open>path\<close>, it is fulfilled with \<open>path\<close> by
  the worker's answer whenever the id is still in the table, and it is never rejected
  with anything but \<open>Path generation timeout\<close> or \<open>Worker error: <message>\<close>.
\<close>

theorem async_fulfilment_is_sync_result:
  "(\<not> worker st \<and> \<not> canConstruct ev \<longrightarrow>
      fst (generatePathAsync m ev w h e st) = Settled (generatePathSync m w h e)
      \<and> pendingRequests (snd (generatePathAsync m ev w h e st)) = pendingRequests st
      \<and> promises (snd (generatePathAsync m ev w h e st)) = promises st
      \<and> timeouts (snd (generatePathAsync m ev w h e st)) = timeouts st)
   \<and> ((worker st \<or> canConstruct ev) \<and> postThrows ev = None
        \<and> generatePathSync m w h e = Inr path \<longrightarrow>
      fst (generatePathAsync m ev w h e st) = Awaits (nextPromise st)
      \<and> last (trace (snd (generatePathAsync m ev w h e st)))
          = PostMessage (GENERATE_PATH_SYMMETRIC (requestId (requestIdCounter st + 1) (now ev)) w h e)
      \<and> self_onmessage m (GENERATE_PATH_SYMMETRIC (requestId (requestIdCounter st + 1) (now ev)) w h e)
          = [\<lparr>res_id = requestId (requestIdCounter st + 1) (now ev),
               pathData = Some path, error = None\<rparr>]
      \<and> promises
            (worker_onmessage
               \<lparr>res_id = requestId (requestIdCounter st + 1) (now ev),
                 pathData = Some path, error = None\<rparr>
               (snd (generatePathAsync m ev w h e st)))
            (nextPromise st)
          = Some (Fulfilled (Some path)))
   \<and> ((worker (run m evs init) \<or> canConstruct ev) \<and> postThrows ev = None
        \<and> generatePathSync m w h e = Inr path
        \<and> list_all (answers m (GENERATE_PATH_SYMMETRIC
                        (requestId (requestIdCounter (run m evs init) + 1) (now ev)) w h e)) evs' \<longrightarrow>
      (\<forall>v. promises (run m (evs @ CallSymmetric ev w h e # evs') init) (nextPromise (run m evs init))
              = Some (Fulfilled v) \<longrightarrow> v = Some path)
      \<and> (requestId (requestIdCounter (run m evs init) + 1) (now ev)
            \<in> fst ` set (pendingRequests (run m (evs @ CallSymmetric ev w h e # evs') init)) \<longrightarrow>
          promises
            (worker_onmessage
               \<lparr>res_id = requestId (requestIdCounter (run m evs init) + 1) (now ev),
                 pathData = Some path, error = None\<rparr>
               (run m (evs @ CallSymmetric ev w h e # evs') init))
            (nextPromise (run m evs init))
          = Some (Fulfilled (Some path)))
      \<and> (\<forall>x. promises (run m (evs @ CallSymmetric ev w h e # evs') init) (nextPromise (run m evs init))
              = Some (Rejected x) \<longrightarrow>
            x = Error ''Path generation timeout''
            \<or> (\<exists>message. x = Error (''Worker error: '' @ message))))"
proof (intro conjI impI allI)
  assume "\<not> worker st \<and> \<not> canConstruct ev"
  then have n: "\<not> worker st" and c: "\<not> canConstruct ev" by simp_all
  note eq = generatePathAsync_unavailable [OF n c]
  show "fst (generatePathAsync m ev w h e st) = Settled (generatePathSync m w h e)"
    by (simp add: eq)
  show "pendingRequests (snd (generatePathAsync m ev w h e st)) = pendingRequests st"
    by (simp add: eq emit_def)
  show "promises (snd (generatePathAsync m ev w h e st)) = promises st"
    by (simp add: eq emit_def)
  show "timeouts (snd (generatePathAsync m ev w h e st)) = timeouts st"
    by (simp add: eq emit_def)
next
  assume h: "(worker st \<or> canConstruct ev) \<and> postThrows ev = None
        \<and> generatePathSync m w h e = Inr path"
  then have a: "worker st \<or> canConstruct ev" and post: "postThrows ev = None"
    and gen: "getSuperellipsePath m w h e = Inr path"
    by (simp_all add: generatePathSync_def)
  note eq = generatePathAsync_available [OF a]
  note iw = initWorker_available [OF a]
  show "fst (generatePathAsync m ev w h e st) = Awaits (nextPromise st)"
    by (simp add: eq sendRequest_fields iw)
  show "last (trace (snd (generatePathAsync m ev w h e st)))
          = PostMessage (GENERATE_PATH_SYMMETRIC (requestId (requestIdCounter st + 1) (now ev)) w h e)"
    by (simp add: eq sendRequest_fields iw post)
  show "self_onmessage m (GENERATE_PATH_SYMMETRIC (requestId (requestIdCounter st + 1) (now ev)) w h e)
          = [\<lparr>res_id = requestId (requestIdCounter st + 1) (now ev),
               pathData = Some path, error = None\<rparr>]"
    by (simp add: self_onmessage_def gen)
  show "promises
            (worker_onmessage
               \<lparr>res_id = requestId (requestIdCounter st + 1) (now ev),
                 pathData = Some path, error = None\<rparr>
               (snd (generatePathAsync m ev w h e st)))
            (nextPromise st)
          = Some (Fulfilled (Some path))"
    by (simp add: eq worker_onmessage_def sendRequest_fields iw post update_conv'
        entry_resolve_def settle_apply)
next
  let ?st = "run m evs init"
  let ?i = "requestId (requestIdCounter ?st + 1) (now ev)"
  let ?msg = "GENERATE_PATH_SYMMETRIC ?i w h e"
  let ?st2 = "run m (evs @ CallSymmetric ev w h e # evs') init"
  assume h: "(worker ?st \<or> canConstruct ev) \<and> postThrows ev = None
        \<and> generatePathSync m w h e = Inr path \<and> list_all (answers m ?msg) evs'"
  then have a: "worker ?st \<or> canConstruct ev" and post: "postThrows ev = None"
    and gen: "getSuperellipsePath m w h e = Inr path"
    and ans: "list_all (answers m ?msg) evs'"
    by (simp_all add: generatePathSync_def)
  have answer: "self_onmessage m ?msg = [\<lparr>res_id = ?i, pathData = Some path, error = None\<rparr>]"
    by (simp add: self_onmessage_def gen)
  have st2: "?st2 = run m evs' (snd (sendRequest ev (\<lambda>i. GENERATE_PATH_SYMMETRIC i w h e)
                                      (snd (initWorker ev ?st))))"
    using a by (simp add: run_append generatePathAsync_snd)
  have "invariant (snd (initWorker ev ?st))"
    by (rule inv_initWorker [OF inv_reachable])
  moreover have "worker (snd (initWorker ev ?st))"
    using a by (simp add: initWorker_fields)
  ultimately have "request_inv ?i (nextPromise ?st) path
      (snd (sendRequest ev (\<lambda>i. GENERATE_PATH_SYMMETRIC i w h e) (snd (initWorker ev ?st))))"
    using request_inv_sendRequest_new [of "snd (initWorker ev ?st)" ev path, OF _ _ post]
    by (simp add: initWorker_fields)
  then have J0: "request_inv ?i (nextPromise ?st) path
      (snd (sendRequest ev (\<lambda>i. GENERATE_PATH_SYMMETRIC i w h e) (snd (initWorker ev ?st))))" .
  have pending: "promises
      (snd (sendRequest ev (\<lambda>i. GENERATE_PATH_SYMMETRIC i w h e) (snd (initWorker ev ?st))))
      (nextPromise ?st) = Some Pending"
    by (simp add: sendRequest_fields initWorker_fields post)
  from J0 have J: "request_inv ?i (nextPromise ?st) path ?st2"
    unfolding st2 using ans answer
    by (intro request_inv_run [where msg = ?msg]) simp_all
  show "v = Some path" if "promises ?st2 (nextPromise ?st) = Some (Fulfilled v)" for v
    by (rule request_invD(5) [OF J that])
  show "promises (worker_onmessage \<lparr>res_id = ?i, pathData = Some path, error = None\<rparr> ?st2)
          (nextPromise ?st) = Some (Fulfilled (Some path))"
    if "?i \<in> fst ` set (pendingRequests ?st2)"
    by (rule request_inv_delivery [OF J that])
  show "x = Error ''Path generation timeout'' \<or> (\<exists>message. x = Error (''Worker error: '' @ message))"
    if "promises ?st2 (nextPromise ?st) = Some (Rejected x)" for x
    using rejected_run [OF J0 ans _ answer that [unfolded st2]] pending by simp
qed

theorem async_fulfilment_is_sync_result_witness:
  "\<not> worker (init :: int state) \<and> \<not> canConstruct (env_noworker 5)
   \<and> fst (generatePathAsync math0 (env_noworker 5) 100 50 4 init) = Settled (Inr ''M 0 0 Z'')
   \<and> pendingRequests (snd (generatePathAsync math0 (env_noworker 5) 100 50 4 init)) = []
   \<and> canConstruct (env_ok 5) \<and> postThrows (env_ok 5) = None
   \<and> generatePathSync math0 100 50 4 = Inr ''M 0 0 Z''
   \<and> fst (generatePathAsync math0 (env_ok 5) 100 50 4 init) = Awaits 0
   \<and> last (trace (snd (generatePathAsync math0 (env_ok 5) 100 50 4 init)))
       = PostMessage (GENERATE_PATH_SYMMETRIC ''req-1-5'' 100 50 4)
   \<and> self_onmessage math0 (GENERATE_PATH_SYMMETRIC ''req-1-5'' 100 50 4)
       = [\<lparr>res_id = ''req-1-5'', pathData = Some ''M 0 0 Z'', error = None\<rparr>]
   \<and> promises
         (worker_onmessage \<lparr>res_id = ''req-1-5'', pathData = Some ''M 0 0 Z'', error = None\<rparr>
            (snd (generatePathAsync math0 (env_ok 5) 100 50 4 init))) 0
       = Some (Fulfilled (Some ''M 0 0 Z''))
   \<and> worker (run math0 evs_before init)
   \<and> list_all (answers math0 (GENERATE_PATH_SYMMETRIC ''req-2-5'' 100 50 4)) evs_between
   \<and> ''req-2-5'' \<in> fst ` set (pendingRequests
         (run math0 (evs_before @ CallSymmetric (env_ok 5) 100 50 4 # evs_between) init))
   \<and> promises
         (worker_onmessage \<lparr>res_id = ''req-2-5'', pathData = Some ''M 0 0 Z'', error = None\<rparr>
            (run math0 (evs_before @ CallSymmetric (env_ok 5) 100 50 4 # evs_between) init)) 1
       = Some (Fulfilled (Some ''M 0 0 Z''))"
  using async_fulfilment_is_sync_result
      [of init "env_noworker 5" math0 100 50 4 "''M 0 0 Z''" "[]" "[]"]
    async_fulfilment_is_sync_result
      [of init "env_ok 5" math0 100 50 4 "''M 0 0 Z''" evs_before evs_between]
  by (simp add: example_facts request_ids evs_between_facts
      evs_between_facts [simplified] evs_between_answers)

section \<open>Properties of the generators\<close>

text \<open>
  C8.  With the per-corner generator as the specification describes it, the per-corner
  entry point applied to four equal exponents \<open>e\<close> returns what the symmetric entry point
  returns for \<open>e\<close>, for every width, height and exponent.
\<close>

theorem uniform_corners_symmetric:
  "generatePerCornerPathSync (math_spec symmetric stitched) w h
     \<lparr>topLeft = e, topRight = e, bottomRight = e, bottomLeft = e\<rparr>
   = generatePathSync (math_spec symmetric stitched) w h e"
  by (simp add: generatePerCornerPathSync_def generatePathSync_def math_spec_def
      getPerCornerSuperellipsePath_spec_def)

section \<open>Properties of the worker\<close>

text \<open>
  C10.  A message whose \<open>type\<close> is neither \<open>GENERATE_PATH_SYMMETRIC\<close> nor
  \<open>GENERATE_PATH_ASYMMETRIC\<close> is answered: the handler posts exactly one response, it
  carries the id of the message and an \<open>error\<close> field with the text of the exception
  thrown for the unknown type.
\<close>

theorem unknown_type_answered:
  assumes "msg_type msg \<noteq> ''GENERATE_PATH_SYMMETRIC''"
    and "msg_type msg \<noteq> ''GENERATE_PATH_ASYMMETRIC''"
  shows "self_onmessage m msg =
           [\<lparr>res_id = msg_id msg, pathData = None,
             error = Some (''Unknown message type: '' @ msg_type msg)\<rparr>]"
  using assms by (cases msg) (simp_all add: self_onmessage_def)

theorem unknown_type_answered_witness:
  "msg_type (Unrecognised ''req-1-5'' ''PING'' :: int WorkerMessage) \<noteq> ''GENERATE_PATH_SYMMETRIC''
   \<and> msg_type (Unrecognised ''req-1-5'' ''PING'' :: int WorkerMessage) \<noteq> ''GENERATE_PATH_ASYMMETRIC''
   \<and> self_onmessage math0 (Unrecognised ''req-1-5'' ''PING'') =
       [\<lparr>res_id = ''req-1-5'', pathData = None, error = Some ''Unknown message type: PING''\<rparr>]"
  using unknown_type_answered [of "Unrecognised ''req-1-5'' ''PING''" math0] by simp

end
